theory Spec2Isabelle
  imports Main "HOL-Library.Signed_Division"
begin

section \<open>Machine integers\<close>

text \<open>
  \<open>index_t\<close> and \<open>transaction_t\<close> are unsigned 64-bit integers, \<open>row_t\<close> is a signed
  64-bit integer. Their values are modelled as \<open>nat\<close> and \<open>int\<close>; every place where the
  source stores the result of an arithmetic expression into one of these types writes the
  conversion out (\<open>as_index_t\<close>, \<open>as_row_t\<close>). Division of a \<open>row_t\<close> by the \<open>int\<close>
  constant \<open>STANDARD_VECTOR_SIZE\<close> is C++ signed division, which truncates towards zero
  (\<open>sdiv\<close>, \<open>smod\<close>); division of an \<open>index_t\<close> is unsigned (\<open>div\<close>).

  \<open>STANDARD_VECTOR_SIZE\<close> is a macro of a header that is not among the verified
  sources. It is the parameter \<open>SVS\<close> of every function that uses it.
\<close>

type_synonym index_t = nat
type_synonym row_t = int
type_synonym transaction_t = nat
type_synonym sel_t = nat
type_synonym addr = nat

definition as_index_t :: "int \<Rightarrow> index_t" where
  "as_index_t x = nat (x mod 2 ^ 64)"

definition as_row_t :: "int \<Rightarrow> row_t" where
  "as_row_t x = (x + 2 ^ 63) mod 2 ^ 64 - 2 ^ 63"

datatype error =
    OutOfBounds
  | NullPointer
  | AssertionFailed
  | OutOfRangeException
  | Exception string
  | NotImplementedException string

section \<open>Batch primitives\<close>

text \<open>
  Modelled from the spec: the classes Vector and DataChunk, the types TypeId and Value and
  the VectorOperations helpers are declared in headers that are not among the verified
  sources. The spec gives a vector a row count, an optional selection vector (indices
  into logical positions), a null mask and a backing storage that the executor may
  replace; a chunk has a shared selection vector and a row count; a constant vector holds
  one logical value. Pointers are addresses: two selection vectors are the identical
  instance when their addresses are equal, and the arrays behind the addresses live in a
  \<open>Memory\<close>. Of the type ids only \<open>BOOLEAN\<close> is named by the verified code; a value is
  null or holds the element read from a data array.
\<close>

datatype TypeId = BOOLEAN | OTHER_TYPE nat

datatype Value = Null_Value | Value int

record Memory =
  data_mem :: "addr \<Rightarrow> nat \<Rightarrow> int"
  sel_mem :: "addr \<Rightarrow> nat \<Rightarrow> sel_t"

record Vector =
  type :: TypeId
  count :: index_t
  data :: addr
  owned_data :: "addr option"
  sel_vector :: "addr option"
  nullmask :: "nat \<Rightarrow> bool"

record DataChunk =
  row_count :: index_t
  sel_vector :: "addr option"

text \<open>Modelled from the spec: \<open>DataChunk::size()\<close>, the row count of the chunk.\<close>

definition DataChunk_size :: "DataChunk \<Rightarrow> index_t" where
  "DataChunk_size c = row_count c"

text \<open>
  Modelled from the spec: the constructor \<open>Vector(type, dataptr)\<close>, an empty vector over a
  caller's buffer.
\<close>

definition Vector_over :: "TypeId \<Rightarrow> addr \<Rightarrow> Vector" where
  "Vector_over t dataptr =
     \<lparr>type = t, count = 0, data = dataptr, owned_data = None,
      sel_vector = None, nullmask = (\<lambda>_. False)\<rparr>"

text \<open>
  Modelled from the spec: the constructor \<open>Vector(type, create_data = true, zero_data =
  false)\<close>, an empty vector that owns a freshly allocated buffer, whose address is the
  parameter \<open>buf\<close>.
\<close>

definition Vector_owning :: "TypeId \<Rightarrow> addr \<Rightarrow> Vector" where
  "Vector_owning t buf =
     \<lparr>type = t, count = 0, data = buf, owned_data = Some buf,
      sel_vector = None, nullmask = (\<lambda>_. False)\<rparr>"

text \<open>
  Modelled from the spec: \<open>Vector::IsConstant()\<close>. A constant vector holds one logical value
  without physical duplication: one element, read at physical index 0 (as \<open>DefaultSelect\<close>
  does), so no selection vector.
\<close>

definition IsConstant :: "Vector \<Rightarrow> bool" where
  "IsConstant v = (Vector.count v = 1 \<and> Vector.sel_vector v = None)"

text \<open>The physical index of logical position \<open>k\<close> under an optional selection vector.\<close>

definition sel_index :: "Memory \<Rightarrow> addr option \<Rightarrow> nat \<Rightarrow> nat" where
  "sel_index mem sel k = (case sel of None \<Rightarrow> k | Some a \<Rightarrow> sel_mem mem a k)"

text \<open>
  Modelled from the spec: \<open>Vector::GetValue(index)\<close>, the value at a logical position, read
  through the selection vector and the null mask; a position outside the vector is an error.
\<close>

definition GetValue :: "Memory \<Rightarrow> Vector \<Rightarrow> index_t \<Rightarrow> error + Value" where
  "GetValue mem v index =
     (if index \<ge> Vector.count v then Inl OutOfRangeException
      else let entry = sel_index mem (Vector.sel_vector v) index
           in if nullmask v entry then Inr Null_Value
              else Inr (Value (data_mem mem (data v) entry)))"

text \<open>
  Modelled from the spec: \<open>VectorOperations::Exec(vector, fun)\<close> calls \<open>fun(i, k)\<close> for the logical positions
  \<open>k = 0 .. count - 1\<close> in order, \<open>i\<close> being the physical index read from the selection
  vector at that moment (so a callback that writes selection-vector memory is seen by the
  later reads). The state threaded through the callbacks carries the memory first.
\<close>

definition VectorOperations_Exec ::
  "Vector \<Rightarrow> (index_t \<Rightarrow> index_t \<Rightarrow> Memory \<times> 's \<Rightarrow> Memory \<times> 's) \<Rightarrow> Memory \<times> 's \<Rightarrow> Memory \<times> 's" where
  "VectorOperations_Exec v f s0 =
     fold (\<lambda>k s. f (sel_index (fst s) (Vector.sel_vector v) k) k s) [0..<Vector.count v] s0"

text \<open>
  Modelled from the spec: \<open>VectorOperations::Set(result, value)\<close> broadcasts one value over the logical positions
  of \<open>result\<close>: a null value sets the whole null mask, any other value clears it and is
  stored at every selected physical index (\<open>fill_loop\<close> is the body of that loop).
\<close>

definition fill_loop :: "addr \<Rightarrow> int \<Rightarrow> index_t \<Rightarrow> index_t \<Rightarrow> Memory \<times> unit \<Rightarrow> Memory \<times> unit" where
  "fill_loop d x i k s =
     ((fst s)\<lparr>data_mem := (data_mem (fst s))(d := (data_mem (fst s) d)(i := x))\<rparr>, ())"

definition VectorOperations_Set :: "Memory \<Rightarrow> Vector \<Rightarrow> Value \<Rightarrow> Memory \<times> Vector" where
  "VectorOperations_Set mem result v =
     (case v of
        Null_Value \<Rightarrow> (mem, result\<lparr>nullmask := (\<lambda>_. True)\<rparr>)
      | Value x \<Rightarrow>
          (fst (VectorOperations_Exec result (fill_loop (data result) x) (mem, ())),
           result\<lparr>nullmask := (\<lambda>_. False)\<rparr>))"

section \<open>Version information of one block\<close>

text \<open>
  Modelled from the spec: the ChunkInfo classes are declared and implemented in files that
  are not among the verified sources. A ChunkInsertInfo holds a per-row-offset commit id
  stamped at insert time, a ChunkDeleteInfo a set of deleted row offsets with the deleting
  transaction id. The visibility rule of a block (its own GetSelVector and Fetch) belongs
  to the transaction layer and stays a parameter.
\<close>

datatype ChunkInfoType = DELETE_INFO | INSERT_INFO

record ChunkInfo =
  type :: ChunkInfoType
  start :: index_t
  deleted :: "row_t \<rightharpoonup> transaction_t"
  inserted :: "index_t \<rightharpoonup> transaction_t"

text \<open>
  Modelled from the spec: the constructors \<open>ChunkDeleteInfo(manager, start_row)\<close> and
  \<open>ChunkInsertInfo(manager, start_row)\<close>; a fresh record has no stamped and no deleted
  offset.
\<close>

definition ChunkDeleteInfo :: "index_t \<Rightarrow> ChunkInfo" where
  "ChunkDeleteInfo start_row =
     \<lparr>type = DELETE_INFO, start = start_row, deleted = Map.empty, inserted = Map.empty\<rparr>"

definition ChunkInsertInfo :: "index_t \<Rightarrow> ChunkInfo" where
  "ChunkInsertInfo start_row =
     \<lparr>type = INSERT_INFO, start = start_row, deleted = Map.empty, inserted = Map.empty\<rparr>"

text \<open>
  Modelled from the spec: the conversion constructor \<open>ChunkInsertInfo(ChunkDeleteInfo &)\<close>,
  which promotes a delete-info and does not discard the block's existing deletions.
\<close>

definition ChunkInsertInfo_from :: "ChunkInfo \<Rightarrow> ChunkInfo" where
  "ChunkInsertInfo_from d =
     \<lparr>type = INSERT_INFO, start = start d, deleted = deleted d, inserted = Map.empty\<rparr>"

text \<open>
  Modelled from the spec: the class Transaction is not among the verified sources. It
  supplies a transaction id and an undo log, which
  \<open>PushDelete(chunk_info_handle, row_offsets, count, absolute_base_row)\<close> extends by one
  entry. A pointer to a ChunkInfo is modelled by the block index whose map entry owns the
  object (the map holds each ChunkInfo through a \<open>unique_ptr\<close>).
\<close>

record UndoDelete =
  chunk_info_handle :: index_t
  row_offsets :: "row_t list"
  offset_count :: index_t
  absolute_base_row :: index_t

record Transaction =
  transaction_id :: transaction_t
  undo_buffer :: "UndoDelete list"

text \<open>Modelled from the spec: \<open>Transaction::PushDelete\<close> appends one undo-log entry.\<close>

definition PushDelete :: "Transaction \<Rightarrow> index_t \<Rightarrow> row_t list \<Rightarrow> index_t \<Rightarrow> index_t \<Rightarrow> Transaction" where
  "PushDelete t vinfo rows n base =
     t\<lparr>undo_buffer := undo_buffer t @
        [\<lparr>chunk_info_handle = vinfo, row_offsets = take n rows, offset_count = n,
          absolute_base_row = base\<rparr>]\<rparr>"

text \<open>
  Modelled from the spec: \<open>ChunkInfo::Delete(transaction, rows, count)\<close> records the first
  \<open>count\<close> offsets of \<open>rows\<close> as deleted by the transaction; it succeeds under the lock.
\<close>

definition ChunkInfo_Delete :: "ChunkInfo \<Rightarrow> Transaction \<Rightarrow> row_t list \<Rightarrow> index_t \<Rightarrow> ChunkInfo" where
  "ChunkInfo_Delete c t rows n =
     c\<lparr>deleted := fold (\<lambda>r m. m(r \<mapsto> transaction_id t)) (take n rows) (deleted c)\<rparr>"

section \<open>VersionManager\<close>

record VersionManager =
  base_row :: index_t
  max_row :: index_t
  info :: "index_t \<rightharpoonup> ChunkInfo"

subsection \<open>Readers\<close>

text \<open>
  The visibility rule of a block (\<open>ChunkInfo::GetSelVector\<close> and \<open>ChunkInfo::Fetch\<close>, not
  among the verified sources) is the parameter \<open>chunk_GetSelVector\<close> and \<open>chunk_Fetch\<close>.
  The caller's array of output positions is handed in and returned next to the count. The
  lock operations of the readers are listed under Locking.
\<close>

definition GetSelVector ::
  "(ChunkInfo \<Rightarrow> Transaction \<Rightarrow> sel_t list \<Rightarrow> index_t \<Rightarrow> index_t \<times> sel_t list) \<Rightarrow>
   VersionManager \<Rightarrow> Transaction \<Rightarrow> index_t \<Rightarrow> sel_t list \<Rightarrow> index_t \<Rightarrow> index_t \<times> sel_t list" where
  "GetSelVector chunk_GetSelVector vm transaction index out_positions max_count =
     (case info vm index of
        None \<Rightarrow> (max_count, out_positions)
      | Some entry \<Rightarrow> chunk_GetSelVector entry transaction out_positions max_count)"

definition Fetch ::
  "nat \<Rightarrow> (ChunkInfo \<Rightarrow> Transaction \<Rightarrow> index_t \<Rightarrow> bool) \<Rightarrow>
   VersionManager \<Rightarrow> Transaction \<Rightarrow> index_t \<Rightarrow> bool" where
  "Fetch SVS chunk_Fetch vm transaction row0 =
     (let row = as_index_t (int row0 - int (base_row vm));
          vector_index = row div SVS
      in case info vm vector_index of
           None \<Rightarrow> True
         | Some entry \<Rightarrow>
             chunk_Fetch entry transaction (as_index_t (int row - int vector_index * int SVS)))"

subsection \<open>RevertAppend\<close>

text \<open>
  The loop \<open>for (; chunk_start <= chunk_end; chunk_start++) info.erase(chunk_start)\<close> runs
  on unsigned 64-bit counters; it never exits when \<open>chunk_end\<close> is the largest
  \<open>index_t\<close>, which is the value \<open>None\<close>.
\<close>

partial_function (option) RevertAppend_loop ::
  "(index_t \<rightharpoonup> ChunkInfo) \<Rightarrow> index_t \<Rightarrow> index_t \<Rightarrow> (index_t \<rightharpoonup> ChunkInfo) option" where
  "RevertAppend_loop m chunk_start chunk_end =
     (if chunk_start \<le> chunk_end
      then RevertAppend_loop (m(chunk_start := None)) ((chunk_start + 1) mod 2 ^ 64) chunk_end
      else Some m)"

definition RevertAppend :: "nat \<Rightarrow> VersionManager \<Rightarrow> row_t \<Rightarrow> row_t \<Rightarrow> VersionManager option" where
  "RevertAppend SVS vm row_start row_end =
     (let chunk_start =
            as_index_t (row_start sdiv int SVS + (if row_start smod int SVS = 0 then 0 else 1));
          chunk_end = as_index_t (row_end sdiv int SVS)
      in map_option (\<lambda>m. vm\<lparr>info := m\<rparr>) (RevertAppend_loop (info vm) chunk_start chunk_end))"

text \<open>
  The spec's words for the blocks \<open>RevertAppend\<close> is to erase: block \<open>b\<close> holds the rows
  \<open>b * SVS .. b * SVS + SVS - 1\<close> and is fully contained in \<open>[row_start, row_end]\<close> when
  both ends are.
\<close>

definition fully_contained :: "nat \<Rightarrow> index_t \<Rightarrow> row_t \<Rightarrow> row_t \<Rightarrow> bool" where
  "fully_contained SVS b row_start row_end =
     (row_start \<le> int (b * SVS) \<and> int (b * SVS + SVS - 1) \<le> row_end)"

text \<open>What the code erases: the blocks whose first row lies in the range.\<close>

definition starts_in_range :: "nat \<Rightarrow> index_t \<Rightarrow> row_t \<Rightarrow> row_t \<Rightarrow> bool" where
  "starts_in_range SVS b row_start row_end =
     (row_start \<le> int (b * SVS) \<and> int (b * SVS) \<le> row_end)"

subsection \<open>Append\<close>

text \<open>
  \<open>GetInsertInfo\<close> returns a pointer to the insert-info of the block, creating or
  promoting the map entry when needed; the pointer is the block index of the entry. (The
  assertion in its last branch cannot fail: the type of an entry that is not an
  insert-info is \<open>DELETE_INFO\<close>.)
\<close>

definition GetInsertInfo :: "nat \<Rightarrow> VersionManager \<Rightarrow> index_t \<Rightarrow> VersionManager \<times> index_t" where
  "GetInsertInfo SVS vm chunk_idx =
     (case info vm chunk_idx of
        None \<Rightarrow>
          (vm\<lparr>info := (info vm)(chunk_idx \<mapsto> ChunkInsertInfo (as_index_t (int chunk_idx * int SVS)))\<rparr>,
           chunk_idx)
      | Some entry \<Rightarrow>
          if ChunkInfo.type entry = INSERT_INFO then (vm, chunk_idx)
          else (vm\<lparr>info := (info vm)(chunk_idx \<mapsto> ChunkInsertInfo_from entry)\<rparr>, chunk_idx))"

text \<open>
  The loop of \<open>Append\<close>, by the number of iterations left. A store through
  \<open>current_info\<close> is an update of the entry the pointer designates; the array \<open>inserted\<close>
  has \<open>SVS\<close> slots, and a store outside it is the error \<open>OutOfBounds\<close>.
\<close>

fun Append_loop ::
  "nat \<Rightarrow> transaction_t \<Rightarrow> nat \<Rightarrow> VersionManager \<Rightarrow> index_t \<Rightarrow> index_t \<Rightarrow> index_t \<Rightarrow>
   error + VersionManager" where
  "Append_loop SVS commit_id 0 vm ptr chunk_idx idx_in_chunk = Inr vm"
| "Append_loop SVS commit_id (Suc n) vm ptr chunk_idx idx_in_chunk =
     (case info vm ptr of
        None \<Rightarrow> Inl NullPointer
      | Some entry \<Rightarrow>
          if \<not> idx_in_chunk < SVS then Inl OutOfBounds
          else
            let vm1 = vm\<lparr>info := (info vm)(ptr \<mapsto>
                          entry\<lparr>inserted := (inserted entry)(idx_in_chunk \<mapsto> commit_id)\<rparr>)\<rparr>;
                idx1 = (idx_in_chunk + 1) mod 2 ^ 64
            in if idx1 = SVS
               then let chunk1 = (chunk_idx + 1) mod 2 ^ 64;
                        (vm2, ptr2) = GetInsertInfo SVS vm1 chunk1
                    in Append_loop SVS commit_id n vm2 ptr2 chunk1 0
               else Append_loop SVS commit_id n vm1 ptr chunk_idx idx1)"

definition Append ::
  "nat \<Rightarrow> VersionManager \<Rightarrow> Transaction \<Rightarrow> row_t \<Rightarrow> index_t \<Rightarrow> transaction_t \<Rightarrow>
   error + VersionManager" where
  "Append SVS vm transaction row_start n commit_id =
     (let chunk_idx = as_index_t (row_start sdiv int SVS);
          idx_in_chunk = as_index_t (row_start - int chunk_idx * int SVS);
          (vm1, ptr) = GetInsertInfo SVS vm chunk_idx
      in case Append_loop SVS commit_id n vm1 ptr chunk_idx idx_in_chunk of
           Inl e \<Rightarrow> Inl e
         | Inr vm2 \<Rightarrow> Inr (vm2\<lparr>max_row := (max_row vm2 + n) mod 2 ^ 64\<rparr>))"

text \<open>Row slot \<open>off\<close> of block \<open>b\<close> is stamped with a commit id in the block's insert-info.\<close>

definition stamped :: "VersionManager \<Rightarrow> index_t \<Rightarrow> index_t \<Rightarrow> transaction_t \<Rightarrow> bool" where
  "stamped vm b off cid =
     (case info vm b of
        None \<Rightarrow> False
      | Some entry \<Rightarrow> ChunkInfo.type entry = INSERT_INFO \<and> inserted entry off = Some cid)"

text \<open>
  The insert-info a block has once \<open>Append\<close> has reached it: the insert-info it had, a new
  one where it had no entry, the promotion of its delete-info otherwise.
\<close>

definition insert_info_of :: "nat \<Rightarrow> index_t \<Rightarrow> ChunkInfo option \<Rightarrow> ChunkInfo" where
  "insert_info_of SVS b before =
     (case before of
        None \<Rightarrow> ChunkInsertInfo (as_index_t (int b * int SVS))
      | Some entry \<Rightarrow>
          if ChunkInfo.type entry = INSERT_INFO then entry else ChunkInsertInfo_from entry)"

text \<open>
  The entry of block \<open>b\<close> with the slots of the rows \<open>r\<close> to \<open>r + n - 1\<close> that lie in the
  block stamped with a commit id, every other slot as it was.
\<close>

definition stamp_rows :: "nat \<Rightarrow> nat \<Rightarrow> nat \<Rightarrow> transaction_t \<Rightarrow> index_t \<Rightarrow> ChunkInfo \<Rightarrow> ChunkInfo" where
  "stamp_rows SVS r n cid b entry =
     entry\<lparr>inserted := (\<lambda>off. if off < SVS \<and> r \<le> b * SVS + off \<and> b * SVS + off < r + n
                               then Some cid else inserted entry off)\<rparr>"

subsection \<open>Delete\<close>

text \<open>
  \<open>current_info\<close> is a pointer to the ChunkInfo of the current block (\<open>None\<close> is the null
  pointer) and \<open>current_chunk\<close> starts as \<open>(index_t) -1\<close>. The array \<open>rows\<close> and the
  member \<open>chunk_row\<close> are left uninitialised by the constructor; the model starts them at
  zero (the slots of \<open>rows\<close> at or above \<open>count\<close> and \<open>chunk_row\<close> before the first block
  change are never read). A store into \<open>rows\<close> at or beyond its \<open>SVS\<close> slots is the error
  \<open>OutOfBounds\<close>, a call through a null \<open>current_info\<close> the error \<open>NullPointer\<close>.
\<close>

record VersionDeleteState =
  manager :: VersionManager
  transaction :: Transaction
  current_info :: "index_t option"
  current_chunk :: index_t
  rows :: "row_t list"
  count :: index_t
  base_row :: index_t
  chunk_row :: index_t

definition VersionDeleteState_init ::
  "nat \<Rightarrow> VersionManager \<Rightarrow> Transaction \<Rightarrow> index_t \<Rightarrow> VersionDeleteState" where
  "VersionDeleteState_init SVS m t base =
     \<lparr>manager = m, transaction = t, current_info = None, current_chunk = 2 ^ 64 - 1,
      rows = replicate SVS 0, count = 0, base_row = base, chunk_row = 0\<rparr>"

definition Flush :: "VersionDeleteState \<Rightarrow> error + VersionDeleteState" where
  "Flush s =
     (if VersionDeleteState.count s = 0 then Inr s
      else case current_info s of
             None \<Rightarrow> Inl NullPointer
           | Some ptr \<Rightarrow>
               (case info (manager s) ptr of
                  None \<Rightarrow> Inl NullPointer
                | Some entry \<Rightarrow>
                    Inr (s\<lparr>manager := (manager s)\<lparr>info := (info (manager s))(ptr \<mapsto>
                               ChunkInfo_Delete entry (transaction s) (rows s)
                                 (VersionDeleteState.count s))\<rparr>,
                           transaction := PushDelete (transaction s) ptr (rows s)
                               (VersionDeleteState.count s)
                               (as_index_t (int (VersionDeleteState.base_row s) + int (chunk_row s))),
                           count := 0\<rparr>)))"

definition VersionDeleteState_Delete ::
  "nat \<Rightarrow> VersionDeleteState \<Rightarrow> row_t \<Rightarrow> error + VersionDeleteState" where
  "VersionDeleteState_Delete SVS s row_id =
     (let chunk_idx = as_index_t (row_id sdiv int SVS);
          idx_in_chunk = as_index_t (row_id - int chunk_idx * int SVS)
      in case (if chunk_idx \<noteq> current_chunk s
               then (case Flush s of
                       Inl e \<Rightarrow> Inl e
                     | Inr s1 \<Rightarrow>
                         let s2 = (case info (manager s1) chunk_idx of
                                     None \<Rightarrow>
                                       s1\<lparr>manager := (manager s1)\<lparr>info := (info (manager s1))(chunk_idx \<mapsto>
                                             ChunkDeleteInfo (as_index_t (int chunk_idx * int SVS)))\<rparr>,
                                          current_info := Some chunk_idx\<rparr>
                                   | Some entry \<Rightarrow> s1\<lparr>current_info := Some chunk_idx\<rparr>)
                         in Inr (s2\<lparr>current_chunk := chunk_idx,
                                    chunk_row := as_index_t (int chunk_idx * int SVS)\<rparr>))
               else Inr s) of
           Inl e \<Rightarrow> Inl e
         | Inr s3 \<Rightarrow>
             if VersionDeleteState.count s3 < length (rows s3)
             then Inr (s3\<lparr>rows := (rows s3)[VersionDeleteState.count s3 := as_row_t (int idx_in_chunk)],
                          count := VersionDeleteState.count s3 + 1\<rparr>)
             else Inl OutOfBounds)"

text \<open>
  \<open>VersionManager::Delete\<close>: the callback of \<open>VectorOperations::Exec\<close> calls
  \<open>del_state.Delete(ids[i] - base_row)\<close>; an error ends the call.
\<close>

definition VersionManager_Delete ::
  "nat \<Rightarrow> Memory \<Rightarrow> VersionManager \<Rightarrow> Transaction \<Rightarrow> Vector \<Rightarrow>
   error + (VersionManager \<times> Transaction)" where
  "VersionManager_Delete SVS mem vm t row_ids =
     (let ids = data_mem mem (data row_ids);
          del_state = VersionDeleteState_init SVS vm t (VersionManager.base_row vm)
      in case snd (VectorOperations_Exec row_ids
                     (\<lambda>i k (m, st).
                        (m, case st of
                              Inl e \<Rightarrow> Inl e
                            | Inr s \<Rightarrow>
                                VersionDeleteState_Delete SVS s
                                  (as_row_t (ids i - int (VersionManager.base_row vm)))))
                     (mem, Inr del_state)) of
           Inl e \<Rightarrow> Inl e
         | Inr s \<Rightarrow>
             (case Flush s of
                Inl e \<Rightarrow> Inl e
              | Inr s' \<Rightarrow> Inr (manager s', transaction s')))"

text \<open>The calls of \<open>del_state.Delete\<close> on a list of row ids, one after the other.\<close>

fun Delete_all :: "nat \<Rightarrow> VersionDeleteState \<Rightarrow> row_t list \<Rightarrow> error + VersionDeleteState" where
  "Delete_all SVS s [] = Inr s"
| "Delete_all SVS s (r # rs) =
     (case VersionDeleteState_Delete SVS s r of
        Inl e \<Rightarrow> Inl e
      | Inr s' \<Rightarrow> Delete_all SVS s' rs)"

text \<open>
  The row ids a vector holds, in the order \<open>VectorOperations::Exec\<close> visits them, and the
  same relative to the first row of the manager.
\<close>

definition ids_of :: "Memory \<Rightarrow> Vector \<Rightarrow> row_t list" where
  "ids_of mem row_ids =
     map (\<lambda>k. data_mem mem (data row_ids) (sel_index mem (Vector.sel_vector row_ids) k))
       [0..<Vector.count row_ids]"

text \<open>
  The spec's words for the undo log of a Delete: the row ids are grouped into the maximal
  runs of consecutive ids of the same block, and each run gives one entry with the
  offsets of its rows inside the block and the absolute first row of the block.
\<close>

fun runs :: "('a \<Rightarrow> 'b) \<Rightarrow> 'a list \<Rightarrow> 'a list list" where
  "runs f [] = []"
| "runs f (x # xs) =
     (case runs f xs of
        [] \<Rightarrow> [[x]]
      | r # rs \<Rightarrow> if f x = f (hd r) then (x # r) # rs else [x] # r # rs)"

definition block_of :: "nat \<Rightarrow> index_t \<Rightarrow> row_t \<Rightarrow> index_t" where
  "block_of SVS base row_id = nat (row_id - int base) div SVS"

definition undo_of_run :: "nat \<Rightarrow> index_t \<Rightarrow> row_t list \<Rightarrow> UndoDelete" where
  "undo_of_run SVS base run =
     \<lparr>chunk_info_handle = block_of SVS base (hd run),
      row_offsets = map (\<lambda>row_id. (row_id - int base) mod int SVS) run,
      offset_count = length run,
      absolute_base_row = base + block_of SVS base (hd run) * SVS\<rparr>"

subsection \<open>Locking\<close>

text \<open>
  The lock and map operations a reader performs, in program order: \<open>GetSelVector\<close> takes
  the shared lock and then looks the block up; \<open>Fetch\<close> looks the block up and takes no
  lock.
\<close>

datatype access = GetSharedLock | GetExclusiveLock | InfoFind index_t

definition GetSelVector_accesses :: "index_t \<Rightarrow> access list" where
  "GetSelVector_accesses index = [GetSharedLock, InfoFind index]"

definition Fetch_accesses :: "nat \<Rightarrow> VersionManager \<Rightarrow> index_t \<Rightarrow> access list" where
  "Fetch_accesses SVS vm row0 =
     [InfoFind (as_index_t (int row0 - int (VersionManager.base_row vm)) div SVS)]"

text \<open>Every lookup in the map happens after a lock has been taken.\<close>

fun locked_before_find :: "bool \<Rightarrow> access list \<Rightarrow> bool" where
  "locked_before_find held [] = True"
| "locked_before_find held (GetSharedLock # es) = locked_before_find True es"
| "locked_before_find held (GetExclusiveLock # es) = locked_before_find True es"
| "locked_before_find held (InfoFind b # es) = (held \<and> locked_before_find held es)"

subsection \<open>The state machine of a block's entry\<close>

text \<open>
  The kind of the entry of a block: absent (\<open>None\<close>), delete-info or insert-info. The
  spec's state machine allows an entry to keep its kind and to go from absent to
  insert-info, from absent to delete-info and from delete-info to insert-info.
\<close>

definition kind :: "VersionManager \<Rightarrow> index_t \<Rightarrow> ChunkInfoType option" where
  "kind vm b = map_option ChunkInfo.type (info vm b)"

definition allowed_step :: "ChunkInfoType option \<Rightarrow> ChunkInfoType option \<Rightarrow> bool" where
  "allowed_step before after =
     (after = before
      \<or> (before = None \<and> after = Some INSERT_INFO)
      \<or> (before = None \<and> after = Some DELETE_INFO)
      \<or> (before = Some DELETE_INFO \<and> after = Some INSERT_INFO))"

text \<open>
  What \<open>Append\<close> may do to an entry: create an insert-info, keep the entry's kind, or
  promote a delete-info to an insert-info; an entry that was there keeps its deletions.
\<close>

definition append_step :: "ChunkInfo option \<Rightarrow> ChunkInfo option \<Rightarrow> bool" where
  "append_step before after =
     (case before of
        None \<Rightarrow> (case after of None \<Rightarrow> True | Some e' \<Rightarrow> ChunkInfo.type e' = INSERT_INFO)
      | Some e \<Rightarrow>
          (case after of
             None \<Rightarrow> False
           | Some e' \<Rightarrow>
               deleted e' = deleted e \<and>
               (ChunkInfo.type e' = ChunkInfo.type e \<or> ChunkInfo.type e' = INSERT_INFO)))"

text \<open>What \<open>Delete\<close> may do to the kind of an entry: keep it, or create a delete-info.\<close>

definition delete_step :: "ChunkInfoType option \<Rightarrow> ChunkInfoType option \<Rightarrow> bool" where
  "delete_step before after = (after = before \<or> (before = None \<and> after = Some DELETE_INFO))"

text \<open>
  A history of the manager after an \<open>Append\<close>: later calls of \<open>Append\<close> and \<open>Delete\<close>, one
  after the other; an error ends the history.
\<close>

datatype operation =
    Append_op Transaction row_t index_t transaction_t
  | Delete_op Memory Transaction Vector

fun perform :: "nat \<Rightarrow> operation \<Rightarrow> VersionManager \<Rightarrow> error + VersionManager" where
  "perform SVS (Append_op txn row_start n commit_id) vm = Append SVS vm txn row_start n commit_id"
| "perform SVS (Delete_op mem txn row_ids) vm =
     (case VersionManager_Delete SVS mem vm txn row_ids of
        Inl e \<Rightarrow> Inl e
      | Inr (vm1, txn1) \<Rightarrow> Inr vm1)"

fun perform_all :: "nat \<Rightarrow> operation list \<Rightarrow> VersionManager \<Rightarrow> error + VersionManager" where
  "perform_all SVS [] vm = Inr vm"
| "perform_all SVS (operation # operations) vm =
     (case perform SVS operation vm of
        Inl e \<Rightarrow> Inl e
      | Inr vm1 \<Rightarrow> perform_all SVS operations vm1)"

section \<open>ExpressionExecutor\<close>

text \<open>
  An expression is read through its kind tag, its declared result type and
  \<open>IsFoldable()\<close>. The specialised \<open>Execute\<close> routines, one per kind, are not among the
  verified sources: they are the parameter \<open>h\<close>, which gets the expression, the executor's
  active chunk, the memory and the result vector and gives an error or the new memory and
  vector. The per-node scratch states are read and written by these routines only and are
  part of what \<open>h\<close> stands for. \<open>Vector::Verify\<close>, a consistency check without effect, is
  the parameter \<open>Vector_Verify\<close>. An \<open>assert\<close> that fails is the error
  \<open>AssertionFailed\<close>. The kind tags are the eleven the dispatch names; any other tag is
  \<open>OTHER_CLASS\<close>.
\<close>

datatype ExpressionClass =
    BOUND_REF | BOUND_BETWEEN | BOUND_CASE | BOUND_CAST | COMMON_SUBEXPRESSION
  | BOUND_COMPARISON | BOUND_CONJUNCTION | BOUND_CONSTANT | BOUND_FUNCTION
  | BOUND_OPERATOR | BOUND_PARAMETER | OTHER_CLASS nat

record Expression =
  expression_class :: ExpressionClass
  return_type :: TypeId
  IsFoldable :: bool

record ExpressionExecutor =
  expressions :: "Expression list"
  chunk :: "DataChunk option"

type_synonym handler =
  "Expression \<Rightarrow> DataChunk option \<Rightarrow> Memory \<Rightarrow> Vector \<Rightarrow> error + (Memory \<times> Vector)"

text \<open>
  Modelled from the spec: the members of the executor are declared in its header, which is
  not among the verified sources. A fresh executor has no registered expression and no
  active input batch.
\<close>

definition ExpressionExecutor_new :: ExpressionExecutor where
  "ExpressionExecutor_new = \<lparr>expressions = [], chunk = None\<rparr>"

text \<open>
  \<open>InitializeState\<close> dispatches on the kind tag to the routine that builds the node's
  scratch state (these routines are not among the verified sources; building the state
  is modelled as succeeding); an unknown tag is an error.
\<close>

definition InitializeState :: "Expression \<Rightarrow> error + unit" where
  "InitializeState expr =
     (case expression_class expr of
        BOUND_REF \<Rightarrow> Inr ()
      | BOUND_BETWEEN \<Rightarrow> Inr ()
      | BOUND_CASE \<Rightarrow> Inr ()
      | BOUND_CAST \<Rightarrow> Inr ()
      | COMMON_SUBEXPRESSION \<Rightarrow> Inr ()
      | BOUND_COMPARISON \<Rightarrow> Inr ()
      | BOUND_CONJUNCTION \<Rightarrow> Inr ()
      | BOUND_CONSTANT \<Rightarrow> Inr ()
      | BOUND_FUNCTION \<Rightarrow> Inr ()
      | BOUND_OPERATOR \<Rightarrow> Inr ()
      | BOUND_PARAMETER \<Rightarrow> Inr ()
      | OTHER_CLASS x \<Rightarrow>
          Inl (NotImplementedException
                 ''Attempting to initialize state of expression of unknown type!''))"

definition AddExpression :: "ExpressionExecutor \<Rightarrow> Expression \<Rightarrow> error + ExpressionExecutor" where
  "AddExpression ex expr =
     (case InitializeState expr of
        Inl e \<Rightarrow> Inl e
      | Inr u \<Rightarrow> Inr (ex\<lparr>expressions := expressions ex @ [expr]\<rparr>))"

definition SetChunk :: "ExpressionExecutor \<Rightarrow> DataChunk option \<Rightarrow> ExpressionExecutor" where
  "SetChunk ex input = ex\<lparr>chunk := input\<rparr>"

definition Verify ::
  "(Memory \<Rightarrow> Vector \<Rightarrow> bool) \<Rightarrow> Expression \<Rightarrow> Memory \<Rightarrow> Vector \<Rightarrow> error + unit" where
  "Verify Vector_Verify expr mem v =
     (if return_type expr \<noteq> Vector.type v then Inl AssertionFailed
      else if \<not> Vector_Verify mem v then Inl AssertionFailed
      else Inr ())"

definition Execute ::
  "handler \<Rightarrow> (Memory \<Rightarrow> Vector \<Rightarrow> bool) \<Rightarrow> DataChunk option \<Rightarrow> Memory \<Rightarrow> Expression \<Rightarrow> Vector \<Rightarrow>
   error + (Memory \<times> Vector)" where
  "Execute h Vector_Verify ch mem expr result =
     (case (case expression_class expr of
              BOUND_BETWEEN \<Rightarrow> h expr ch mem result
            | BOUND_REF \<Rightarrow> h expr ch mem result
            | BOUND_CASE \<Rightarrow> h expr ch mem result
            | BOUND_CAST \<Rightarrow> h expr ch mem result
            | COMMON_SUBEXPRESSION \<Rightarrow> h expr ch mem result
            | BOUND_COMPARISON \<Rightarrow> h expr ch mem result
            | BOUND_CONJUNCTION \<Rightarrow> h expr ch mem result
            | BOUND_CONSTANT \<Rightarrow> h expr ch mem result
            | BOUND_FUNCTION \<Rightarrow> h expr ch mem result
            | BOUND_OPERATOR \<Rightarrow> h expr ch mem result
            | BOUND_PARAMETER \<Rightarrow> h expr ch mem result
            | OTHER_CLASS x \<Rightarrow>
                Inl (NotImplementedException ''Attempting to execute expression of unknown type!'')) of
        Inl e \<Rightarrow> Inl e
      | Inr (mem', r) \<Rightarrow>
          (case Verify Vector_Verify expr mem' r of
             Inl e \<Rightarrow> Inl e
           | Inr u \<Rightarrow> Inr (mem', r)))"

text \<open>\<open>ExecuteExpression(index_t expr_idx, Vector &result)\<close>.\<close>

definition ExecuteExpression_idx ::
  "handler \<Rightarrow> (Memory \<Rightarrow> Vector \<Rightarrow> bool) \<Rightarrow> ExpressionExecutor \<Rightarrow> Memory \<Rightarrow> index_t \<Rightarrow> Vector \<Rightarrow>
   error + (Memory \<times> Vector)" where
  "ExecuteExpression_idx h Vector_Verify ex mem expr_idx result =
     (if \<not> expr_idx < length (expressions ex) then Inl AssertionFailed
      else if Vector.type result \<noteq> return_type (expressions ex ! expr_idx) then Inl AssertionFailed
      else
        let owned = owned_data result;
            initial_data = data result
        in case Execute h Vector_Verify (chunk ex) mem (expressions ex ! expr_idx)
                  (result\<lparr>owned_data := None\<rparr>) of
             Inl e \<Rightarrow> Inl e
           | Inr (mem1, r1) \<Rightarrow>
               (case (case chunk ex of
                        None \<Rightarrow> Inr (mem1, r1)
                      | Some c \<Rightarrow>
                          (case (if IsConstant r1
                                 then (case GetValue mem1 r1 0 of
                                         Inl e \<Rightarrow> Inl e
                                       | Inr constant_value \<Rightarrow>
                                           Inr (VectorOperations_Set mem1
                                                  (r1\<lparr>data := initial_data,
                                                      Vector.count := DataChunk_size c,
                                                      Vector.sel_vector := DataChunk.sel_vector c\<rparr>)
                                                  constant_value))
                                 else if Vector.count r1 \<noteq> DataChunk_size c
                                 then Inl (Exception
                                             ''Computed vector length does not match expected length!'')
                                 else Inr (mem1, r1)) of
                             Inl e \<Rightarrow> Inl e
                           | Inr (mem2, r2) \<Rightarrow>
                               if Vector.sel_vector r2 = DataChunk.sel_vector c
                               then Inr (mem2, r2)
                               else Inl AssertionFailed)) of
                  Inl e \<Rightarrow> Inl e
                | Inr (mem3, r3) \<Rightarrow>
                    Inr (mem3, if data r3 = initial_data then r3\<lparr>owned_data := owned\<rparr> else r3)))"

text \<open>\<open>ExecuteExpression(Vector &result)\<close>.\<close>

definition ExecuteExpression_single ::
  "handler \<Rightarrow> (Memory \<Rightarrow> Vector \<Rightarrow> bool) \<Rightarrow> ExpressionExecutor \<Rightarrow> Memory \<Rightarrow> Vector \<Rightarrow>
   error + (Memory \<times> Vector)" where
  "ExecuteExpression_single h Vector_Verify ex mem result =
     (if length (expressions ex) \<noteq> 1 then Inl AssertionFailed
      else ExecuteExpression_idx h Vector_Verify ex mem 0 result)"

text \<open>
  \<open>ExecuteExpression(DataChunk &input, Vector &result)\<close>; the executor keeps \<open>input\<close> as
  its active chunk afterwards.
\<close>

definition ExecuteExpression_chunk ::
  "handler \<Rightarrow> (Memory \<Rightarrow> Vector \<Rightarrow> bool) \<Rightarrow> ExpressionExecutor \<Rightarrow> Memory \<Rightarrow> DataChunk \<Rightarrow> Vector \<Rightarrow>
   error + (Memory \<times> Vector)" where
  "ExecuteExpression_chunk h Vector_Verify ex mem input result =
     ExecuteExpression_single h Vector_Verify (SetChunk ex (Some input)) mem result"

text \<open>
  \<open>EvaluateScalar\<close> builds a throwaway executor and a result vector that owns a fresh buffer
  (at address \<open>buf\<close>); both are gone when it returns the value.
\<close>

definition EvaluateScalar ::
  "handler \<Rightarrow> (Memory \<Rightarrow> Vector \<Rightarrow> bool) \<Rightarrow> Memory \<Rightarrow> Expression \<Rightarrow> addr \<Rightarrow> error + Value" where
  "EvaluateScalar h Vector_Verify mem expr buf =
     (if \<not> IsFoldable expr then Inl AssertionFailed
      else case AddExpression ExpressionExecutor_new expr of
             Inl e \<Rightarrow> Inl e
           | Inr executor \<Rightarrow>
               (case ExecuteExpression_single h Vector_Verify executor mem
                       (Vector_owning (return_type expr) buf) of
                  Inl e \<Rightarrow> Inl e
                | Inr (mem', r) \<Rightarrow>
                    if Vector.count r \<noteq> 1 then Inl AssertionFailed
                    else GetValue mem' r 0))"

text \<open>
  \<open>DefaultSelect\<close>: \<open>intermediate_bools\<close> is the address of the local boolean array and
  \<open>out\<close> the address of the caller's output positions, an array of selection-vector
  memory (it may be the array the batch's selection vector points to). A \<open>bool\<close> element
  is true when it is not zero. The result is the new memory and the returned count;
  \<open>DefaultSelect_callback\<close> is the body of the lambda handed to \<open>VectorOperations::Exec\<close>.
\<close>

definition DefaultSelect_callback ::
  "Vector \<Rightarrow> addr \<Rightarrow> index_t \<Rightarrow> index_t \<Rightarrow> Memory \<times> index_t \<Rightarrow> Memory \<times> index_t" where
  "DefaultSelect_callback intermediate out i k s =
     (let m = fst s; result_count = snd s
      in if data_mem m (data intermediate) i \<noteq> 0 \<and> \<not> nullmask intermediate i
         then (m\<lparr>sel_mem := (sel_mem m)(out := (sel_mem m out)(result_count := i))\<rparr>,
               result_count + 1)
         else (m, result_count))"

definition DefaultSelect ::
  "handler \<Rightarrow> (Memory \<Rightarrow> Vector \<Rightarrow> bool) \<Rightarrow> ExpressionExecutor \<Rightarrow> Memory \<Rightarrow> Expression \<Rightarrow>
   addr \<Rightarrow> addr \<Rightarrow> error + (Memory \<times> index_t)" where
  "DefaultSelect h Vector_Verify ex mem expr intermediate_bools out =
     (case Execute h Vector_Verify (chunk ex) mem expr (Vector_over BOOLEAN intermediate_bools) of
        Inl e \<Rightarrow> Inl e
      | Inr (mem1, intermediate) \<Rightarrow>
          let intermediate_result = data intermediate
          in if IsConstant intermediate
             then if data_mem mem1 intermediate_result 0 \<noteq> 0 \<and> \<not> nullmask intermediate 0
                  then (case chunk ex of
                          None \<Rightarrow> Inl NullPointer
                        | Some c \<Rightarrow> Inr (mem1, DataChunk_size c))
                  else Inr (mem1, 0)
             else Inr (VectorOperations_Exec intermediate
                         (DefaultSelect_callback intermediate out) (mem1, 0)))"

text \<open>
  \<open>Select\<close>: between, comparison and conjunction expressions have selection routines of
  their own (not among the verified sources, the parameter \<open>hs\<close>); every other kind goes to
  \<open>DefaultSelect\<close>.
\<close>

definition Select ::
  "handler \<Rightarrow> (Memory \<Rightarrow> Vector \<Rightarrow> bool) \<Rightarrow>
   (Expression \<Rightarrow> DataChunk option \<Rightarrow> Memory \<Rightarrow> addr \<Rightarrow> error + (Memory \<times> index_t)) \<Rightarrow>
   ExpressionExecutor \<Rightarrow> Memory \<Rightarrow> Expression \<Rightarrow> addr \<Rightarrow> addr \<Rightarrow> error + (Memory \<times> index_t)" where
  "Select h Vector_Verify hs ex mem expr intermediate_bools out =
     (if return_type expr \<noteq> BOOLEAN then Inl AssertionFailed
      else case expression_class expr of
             BOUND_BETWEEN \<Rightarrow> hs expr (chunk ex) mem out
           | BOUND_COMPARISON \<Rightarrow> hs expr (chunk ex) mem out
           | BOUND_CONJUNCTION \<Rightarrow> hs expr (chunk ex) mem out
           | _ \<Rightarrow> DefaultSelect h Vector_Verify ex mem expr intermediate_bools out)"

definition SelectExpression ::
  "handler \<Rightarrow> (Memory \<Rightarrow> Vector \<Rightarrow> bool) \<Rightarrow>
   (Expression \<Rightarrow> DataChunk option \<Rightarrow> Memory \<Rightarrow> addr \<Rightarrow> error + (Memory \<times> index_t)) \<Rightarrow>
   ExpressionExecutor \<Rightarrow> Memory \<Rightarrow> DataChunk \<Rightarrow> addr \<Rightarrow> addr \<Rightarrow> error + (Memory \<times> index_t)" where
  "SelectExpression h Vector_Verify hs ex mem input intermediate_bools out =
     (if length (expressions ex) \<noteq> 1 then Inl AssertionFailed
      else Select h Vector_Verify hs (SetChunk ex (Some input)) mem (expressions ex ! 0)
             intermediate_bools out)"

text \<open>
  The physical positions of a vector in the order its selection vector visits them, and
  those of them that hold a true, non-null boolean.
\<close>

definition positions :: "Memory \<Rightarrow> Vector \<Rightarrow> nat list" where
  "positions mem v = map (sel_index mem (Vector.sel_vector v)) [0..<Vector.count v]"

definition true_positions :: "Memory \<Rightarrow> Vector \<Rightarrow> nat list" where
  "true_positions mem v =
     filter (\<lambda>i. data_mem mem (data v) i \<noteq> 0 \<and> \<not> nullmask v i) (positions mem v)"

text \<open>
  Modelled from the spec: a foldable constant expression is one whose value is
  independent of any input row and computable once; its routine gives, whatever the active
  chunk, the memory and the result vector it is handed, a constant vector holding the
  value \<open>v\<close>.
\<close>

definition folds_to ::
  "handler \<Rightarrow> (Memory \<Rightarrow> Vector \<Rightarrow> bool) \<Rightarrow> Expression \<Rightarrow> Value \<Rightarrow> bool" where
  "folds_to h Vector_Verify expr v =
     (IsFoldable expr \<and>
      (\<forall>ch mem r. Vector.type r = return_type expr \<longrightarrow>
         (\<exists>mem' r'. Execute h Vector_Verify ch mem expr r = Inr (mem', r')
            \<and> IsConstant r' \<and> GetValue mem' r' 0 = Inr v)))"


section \<open>Arithmetic of the 64-bit conversions\<close>

lemma sdiv_nonneg: "0 \<le> a \<Longrightarrow> 0 < b \<Longrightarrow> (a::int) sdiv b = a div b"
  by (simp add: signed_divide_int_def sgn_if)

lemma smod_nonneg: "0 \<le> a \<Longrightarrow> 0 < b \<Longrightarrow> (a::int) smod b = a mod b"
  by (simp add: signed_modulo_int_def sgn_if)

lemma as_index_t_id: "0 \<le> x \<Longrightarrow> x < 2 ^ 64 \<Longrightarrow> as_index_t x = nat x"
  by (simp add: as_index_t_def)

lemma as_index_t_int: "n < 2 ^ 64 \<Longrightarrow> as_index_t (int n) = n"
proof -
  assume "n < 2 ^ 64"
  then have "int n < 2 ^ 64" by simp
  then show ?thesis by (simp add: as_index_t_id)
qed

lemma ceil_div_le_iff:
  fixes r S b :: nat
  assumes "0 < S"
  shows "(r div S + (if r mod S = 0 then 0 else 1) \<le> b) = (r \<le> b * S)"
proof (cases "r mod S = 0")
  case True
  then have "r = (r div S) * S" by auto
  then have "(r \<le> b * S) = ((r div S) * S \<le> b * S)" by simp
  also have "\<dots> = (r div S \<le> b)" using assms by simp
  finally show ?thesis using True by simp
next
  case False
  have "(r div S < b) = (r < b * S)"
    using assms by (rule div_less_iff_less_mult)
  moreover have "(r < b * S) = (r \<le> b * S)"
  proof
    assume "r \<le> b * S"
    moreover have "r \<noteq> b * S" using False by auto
    ultimately show "r < b * S" by simp
  qed simp
  ultimately show ?thesis using False by auto
qed

section \<open>Readers on a block without version information\<close>

lemma Fetch_row_of_block:
  assumes "0 < SVS" "off < SVS" "base + b * SVS + off < 2 ^ 64"
  shows "as_index_t (int (base + b * SVS + off) - int base) div SVS = b"
proof -
  have eq: "int (base + b * SVS + off) - int base = int (b * SVS + off)" by simp
  have "b * SVS + off < 2 ^ 64" using assms(3) by linarith
  then have "as_index_t (int (b * SVS + off)) = b * SVS + off" by (rule as_index_t_int)
  then have "as_index_t (int (base + b * SVS + off) - int base) = b * SVS + off"
    by (simp only: eq)
  then show ?thesis using assms(1,2) by simp
qed

text \<open>
  C4. A block with no ChunkInfo entry is fully visible: \<open>GetSelVector\<close> returns
  \<open>max_count\<close> and hands the output positions back unchanged, and \<open>Fetch\<close> returns true
  for every row of the block (row \<open>base_row + b * SVS + off\<close> with \<open>off < SVS\<close>), for every
  transaction and whatever the visibility rule of a block is.
\<close>

theorem no_entry_fully_visible:
  assumes "info vm b = None"
  shows "GetSelVector chunk_GetSelVector vm txn b out_positions max_count
           = (max_count, out_positions)
         \<and> (\<forall>off. 0 < SVS \<and> off < SVS \<and> VersionManager.base_row vm + b * SVS + off < 2 ^ 64 \<longrightarrow>
               Fetch SVS chunk_Fetch vm txn (VersionManager.base_row vm + b * SVS + off))"
proof
  show "GetSelVector chunk_GetSelVector vm txn b out_positions max_count
          = (max_count, out_positions)"
    using assms by (simp add: GetSelVector_def)
  show "\<forall>off. 0 < SVS \<and> off < SVS \<and> VersionManager.base_row vm + b * SVS + off < 2 ^ 64 \<longrightarrow>
          Fetch SVS chunk_Fetch vm txn (VersionManager.base_row vm + b * SVS + off)"
  proof (intro allI impI)
    fix off
    assume h: "0 < SVS \<and> off < SVS \<and> VersionManager.base_row vm + b * SVS + off < 2 ^ 64"
    then have "as_index_t (int (VersionManager.base_row vm + b * SVS + off) - int (VersionManager.base_row vm)) div SVS = b"
      by (intro Fetch_row_of_block) auto
    then show "Fetch SVS chunk_Fetch vm txn (VersionManager.base_row vm + b * SVS + off)"
      using assms by (simp add: Fetch_def Let_def)
  qed
qed

theorem no_entry_fully_visible_witness:
  "GetSelVector (\<lambda>c t s n. (0, []))
      \<lparr>VersionManager.base_row = 100, max_row = 5000, info = [0 \<mapsto> ChunkDeleteInfo 0]\<rparr>
      \<lparr>transaction_id = 7, undo_buffer = []\<rparr> 1 [9, 9, 9] 3 = (3, [9, 9, 9])
   \<and> Fetch 1024 (\<lambda>c t r. False)
      \<lparr>VersionManager.base_row = 100, max_row = 5000, info = [0 \<mapsto> ChunkDeleteInfo 0]\<rparr>
      \<lparr>transaction_id = 7, undo_buffer = []\<rparr> 1129"
proof -
  let ?vm = "\<lparr>VersionManager.base_row = 100, max_row = 5000, info = [0 \<mapsto> ChunkDeleteInfo 0]\<rparr>"
  have none: "info ?vm 1 = None" by simp
  note t = no_entry_fully_visible [OF none, of "\<lambda>c t s n. (0, [])"
      "\<lparr>transaction_id = 7, undo_buffer = []\<rparr>" "[9, 9, 9]" 3 1024 "\<lambda>c t r. False"]
  from t have "GetSelVector (\<lambda>c t s n. (0, [])) ?vm \<lparr>transaction_id = 7, undo_buffer = []\<rparr>
      1 [9, 9, 9] 3 = (3, [9, 9, 9])" by (rule conjunct1)
  moreover from t have "Fetch 1024 (\<lambda>c t r. False) ?vm \<lparr>transaction_id = 7, undo_buffer = []\<rparr>
      (VersionManager.base_row ?vm + 1 * 1024 + 5)"
    by (elim conjE allE [where x = 5]) simp
  ultimately show ?thesis by simp
qed

section \<open>RevertAppend\<close>

lemma RevertAppend_loop_erases:
  "chunk_end < 2 ^ 64 - 1 \<Longrightarrow>
   RevertAppend_loop m chunk_start chunk_end =
     Some (\<lambda>b. if chunk_start \<le> b \<and> b \<le> chunk_end then None else m b)"
proof (induction "chunk_end + 1 - chunk_start" arbitrary: m chunk_start)
  case 0
  then have "\<not> chunk_start \<le> chunk_end" by simp
  then show ?case
    by (subst RevertAppend_loop.simps) (auto simp: fun_eq_iff)
next
  case (Suc n)
  then have le: "chunk_start \<le> chunk_end" by simp
  with Suc.prems have nowrap: "(chunk_start + 1) mod 2 ^ 64 = chunk_start + 1" by simp
  have "n = chunk_end + 1 - (chunk_start + 1)" using Suc.hyps(2) by simp
  from Suc.hyps(1)[OF this Suc.prems]
  have "RevertAppend_loop (m(chunk_start := None)) (chunk_start + 1) chunk_end =
     Some (\<lambda>b. if chunk_start + 1 \<le> b \<and> b \<le> chunk_end then None
                else (m(chunk_start := None)) b)" .
  then show ?case using le nowrap
    by (subst RevertAppend_loop.simps) (auto simp: fun_eq_iff)
qed

lemma RevertAppend_chunk_start:
  assumes "0 < SVS" "0 \<le> row_start" "row_start < 2 ^ 63"
  shows "as_index_t (row_start sdiv int SVS + (if row_start smod int SVS = 0 then 0 else 1))
         = nat row_start div SVS + (if nat row_start mod SVS = 0 then 0 else 1)"
proof -
  obtain r where r: "row_start = int r" using assms(2) by (metis nonneg_int_cases)
  have d: "int r sdiv int SVS = int (r div SVS)"
    using assms(1) by (simp add: sdiv_nonneg zdiv_int)
  have m: "int r smod int SVS = int (r mod SVS)"
    using assms(1) by (simp add: smod_nonneg zmod_int)
  have "r div SVS \<le> r" by simp
  moreover have "r < 2 ^ 63" using assms(3) r by simp
  ultimately have "r div SVS < 2 ^ 63" by (rule le_less_trans)
  then have b: "int (r div SVS) + 1 < 2 ^ 64" by simp
  have "as_index_t (int (r div SVS) + (if r mod SVS = 0 then 0 else 1)) =
        nat (int (r div SVS) + (if r mod SVS = 0 then 0 else 1))"
    using b by (intro as_index_t_id) auto
  also have "\<dots> = r div SVS + (if r mod SVS = 0 then 0 else 1)"
    by (simp add: nat_add_distrib)
  finally show ?thesis unfolding r d m by simp
qed

lemma RevertAppend_chunk_end:
  assumes "0 < SVS" "0 \<le> row_end" "row_end < 2 ^ 63"
  shows "as_index_t (row_end sdiv int SVS) = nat row_end div SVS"
    and "nat row_end div SVS < 2 ^ 64 - 1"
proof -
  obtain r where r: "row_end = int r" using assms(2) by (metis nonneg_int_cases)
  have d: "int r sdiv int SVS = int (r div SVS)"
    using assms(1) by (simp add: sdiv_nonneg zdiv_int)
  have "r div SVS \<le> r" by simp
  moreover have "r < 2 ^ 63" using assms(3) r by simp
  ultimately have b: "r div SVS < 2 ^ 63" by (rule le_less_trans)
  then have "int (r div SVS) < 2 ^ 64" by simp
  then show "as_index_t (row_end sdiv int SVS) = nat row_end div SVS" unfolding r d
    by (simp add: as_index_t_id)
  show "nat row_end div SVS < 2 ^ 64 - 1" using b r by simp
qed

lemma RevertAppend_info:
  assumes "0 < SVS" "0 \<le> row_start" "row_start < 2 ^ 63" "0 \<le> row_end" "row_end < 2 ^ 63"
  shows "RevertAppend SVS vm row_start row_end =
           Some (vm\<lparr>info := (\<lambda>b. if starts_in_range SVS b row_start row_end then None
                                  else info vm b)\<rparr>)"
proof -
  let ?cs = "nat row_start div SVS + (if nat row_start mod SVS = 0 then 0 else 1)"
  let ?ce = "nat row_end div SVS"
  have range: "(?cs \<le> b \<and> b \<le> ?ce) = starts_in_range SVS b row_start row_end" for b
  proof -
    have "(?cs \<le> b) = (nat row_start \<le> b * SVS)"
      using assms(1) by (rule ceil_div_le_iff)
    moreover have "(b \<le> ?ce) = (b * SVS \<le> nat row_end)"
      using assms(1) by (rule less_eq_div_iff_mult_less_eq)
    moreover have "(nat row_start \<le> b * SVS) = (row_start \<le> int (b * SVS))"
      by (rule nat_le_iff)
    moreover have "(b * SVS \<le> nat row_end) = (int (b * SVS) \<le> row_end)"
      using assms(4) by (rule le_nat_iff)
    ultimately show ?thesis
      by (simp only: starts_in_range_def)
  qed
  have "RevertAppend_loop (info vm) ?cs ?ce =
          Some (\<lambda>b. if ?cs \<le> b \<and> b \<le> ?ce then None else info vm b)"
    using RevertAppend_chunk_end(2)[OF assms(1,4,5)] by (rule RevertAppend_loop_erases)
  then show ?thesis
    unfolding RevertAppend_def Let_def
      RevertAppend_chunk_start[OF assms(1,2,3)] RevertAppend_chunk_end(1)[OF assms(1,4,5)]
    by (simp only: range option.map)
qed

lemma fully_contained_starts_in_range:
  "0 < SVS \<Longrightarrow> fully_contained SVS b row_start row_end \<Longrightarrow> starts_in_range SVS b row_start row_end"
  by (auto simp: fully_contained_def starts_in_range_def)

lemma straddling_block_not_in_range:
  assumes "0 < SVS" "0 \<le> row_start" "nat row_start mod SVS \<noteq> 0"
  shows "\<not> starts_in_range SVS (nat row_start div SVS) row_start row_end"
proof -
  have "nat row_start div SVS * SVS < nat row_start"
    using assms(3) by (metis div_mult_mod_eq less_add_same_cancel1 neq0_conv)
  then have "int (nat row_start div SVS * SVS) < row_start" using assms(2) by linarith
  then show ?thesis by (simp add: starts_in_range_def)
qed

text \<open>
  C2, as amended. For non-negative row numbers, \<open>RevertAppend(row_start, row_end)\<close> returns, and
  it erases the entry of block \<open>b\<close> if and only if the first row of the block, \<open>b * SVS\<close>,
  lies in \<open>[row_start, row_end]\<close>; every other entry is kept as it was. In particular
  every block fully contained in the range is erased, and when \<open>row_start\<close> is not
  block-aligned the block containing \<open>row_start\<close> keeps its entry. (The block containing
  \<open>row_end\<close> is erased although the range may cover only its first rows.)
\<close>

theorem RevertAppend_erases_blocks_starting_in_range:
  assumes "0 < SVS" "0 \<le> row_start" "row_start < 2 ^ 63" "0 \<le> row_end" "row_end < 2 ^ 63"
  shows "\<exists>vm'. RevertAppend SVS vm row_start row_end = Some vm'
           \<and> (\<forall>b. info vm' b = (if starts_in_range SVS b row_start row_end then None
                                 else info vm b))
           \<and> (\<forall>b. fully_contained SVS b row_start row_end \<longrightarrow> info vm' b = None)
           \<and> (row_start smod int SVS \<noteq> 0 \<longrightarrow>
                info vm' (nat row_start div SVS) = info vm (nat row_start div SVS))"
proof -
  let ?vm' = "vm\<lparr>info := (\<lambda>b. if starts_in_range SVS b row_start row_end then None
                                else info vm b)\<rparr>"
  have r: "RevertAppend SVS vm row_start row_end = Some ?vm'"
    using assms by (rule RevertAppend_info)
  have a: "\<forall>b. info ?vm' b = (if starts_in_range SVS b row_start row_end then None
                                else info vm b)"
    by simp
  have b: "\<forall>b. fully_contained SVS b row_start row_end \<longrightarrow> info ?vm' b = None"
    using fully_contained_starts_in_range [OF assms(1)] by simp
  have c: "row_start smod int SVS \<noteq> 0 \<longrightarrow>
             info ?vm' (nat row_start div SVS) = info vm (nat row_start div SVS)"
  proof
    assume "row_start smod int SVS \<noteq> 0"
    then have "row_start mod int SVS \<noteq> 0"
      using assms(1,2) by (simp add: smod_nonneg)
    then have "nat row_start mod SVS \<noteq> 0"
      using assms(2) by (metis int_nat_eq of_nat_0 zmod_int)
    then have "\<not> starts_in_range SVS (nat row_start div SVS) row_start row_end"
      using assms(1,2) by (intro straddling_block_not_in_range)
    then show "info ?vm' (nat row_start div SVS) = info vm (nat row_start div SVS)"
      by simp
  qed
  from r a b c show ?thesis by blast
qed

theorem RevertAppend_erases_blocks_starting_in_range_witness:
  "map_option (\<lambda>v. (info v 0, info v 1, info v 2, info v 3))
     (RevertAppend 1024
        \<lparr>VersionManager.base_row = 0, max_row = 3001,
         info = [0 \<mapsto> ChunkInsertInfo 0, 1 \<mapsto> ChunkDeleteInfo 1024,
                 2 \<mapsto> ChunkInsertInfo 2048]\<rparr> 1030 3000)
   = Some (Some (ChunkInsertInfo 0), Some (ChunkDeleteInfo 1024), None, None)"
proof -
  let ?vm = "\<lparr>VersionManager.base_row = 0, max_row = 3001,
         info = [0 \<mapsto> ChunkInsertInfo 0, 1 \<mapsto> ChunkDeleteInfo 1024,
                 2 \<mapsto> ChunkInsertInfo 2048]\<rparr>"
  have pre: "0 < (1024::nat)" "(0::int) \<le> 1030" "(1030::int) < 2 ^ 63"
    "(0::int) \<le> 3000" "(3000::int) < 2 ^ 63" by simp_all
  from RevertAppend_erases_blocks_starting_in_range [OF pre, of ?vm]
  obtain vm' where r: "RevertAppend 1024 ?vm 1030 3000 = Some vm'"
    and i: "\<And>b. info vm' b = (if starts_in_range 1024 b 1030 3000 then None else info ?vm b)"
    by blast
  have "info vm' 0 = Some (ChunkInsertInfo 0)" "info vm' 1 = Some (ChunkDeleteInfo 1024)"
    "info vm' 2 = None" "info vm' 3 = None"
    by (simp_all add: i starts_in_range_def)
  then show ?thesis unfolding r by simp
qed

text \<open>
  C2 as stated fails: \<open>RevertAppend(0, 5)\<close> with blocks of 1024 rows erases the entry of
  block 0, which holds the rows 0 to 1023 and so is not fully contained in \<open>[0, 5]\<close>.
\<close>

theorem RevertAppend_fully_contained_counterexample:
  "map_option (\<lambda>v. info v 0)
     (RevertAppend 1024 \<lparr>VersionManager.base_row = 0, max_row = 6, info = [0 \<mapsto> ChunkInsertInfo 0]\<rparr> 0 5)
   = Some None
   \<and> \<not> fully_contained 1024 0 0 5"
  by (simp add: RevertAppend_def RevertAppend_loop.simps as_index_t_def fully_contained_def)

section \<open>Append\<close>

lemma GetInsertInfo_eq:
  "GetInsertInfo SVS vm k = (vm\<lparr>info := (info vm)(k \<mapsto> insert_info_of SVS k (info vm k))\<rparr>, k)"
proof (cases "info vm k")
  case None
  then show ?thesis by (simp add: GetInsertInfo_def insert_info_of_def)
next
  case (Some e)
  then have "(info vm)(k \<mapsto> e) = info vm" by (simp add: map_upd_triv)
  then show ?thesis using Some by (simp add: GetInsertInfo_def insert_info_of_def)
qed

lemma insert_info_of_type: "ChunkInfo.type (insert_info_of SVS b x) = INSERT_INFO"
  by (simp add: insert_info_of_def ChunkInsertInfo_def ChunkInsertInfo_from_def split: option.splits)

lemma insert_info_of_idem:
  "insert_info_of SVS b (Some (insert_info_of SVS b x)) = insert_info_of SVS b x"
  by (simp add: insert_info_of_def ChunkInsertInfo_def ChunkInsertInfo_from_def split: option.splits)

lemma insert_info_of_insert:
  "ChunkInfo.type e = INSERT_INFO \<Longrightarrow> insert_info_of SVS b (Some e) = e"
  by (simp add: insert_info_of_def)


lemma stamp_rows_cong:
  assumes "\<And>off. off < SVS \<Longrightarrow>
             (if r \<le> b * SVS + off \<and> b * SVS + off < r + n then Some cid else inserted e off)
           = (if r' \<le> b * SVS + off \<and> b * SVS + off < r' + n' then Some cid else inserted e' off)"
    and "\<And>off. \<not> off < SVS \<Longrightarrow> inserted e off = inserted e' off"
    and "ChunkInfo.type e = ChunkInfo.type e'" "start e = start e'" "deleted e = deleted e'"
    and "ChunkInfo.more e = ChunkInfo.more e'"
  shows "stamp_rows SVS r n cid b e = stamp_rows SVS r' n' cid b e'"
proof (rule ChunkInfo.equality)
  show "inserted (stamp_rows SVS r n cid b e) = inserted (stamp_rows SVS r' n' cid b e')"
  proof (rule ext)
    fix off
    show "inserted (stamp_rows SVS r n cid b e) off = inserted (stamp_rows SVS r' n' cid b e') off"
      using assms(1)[of off] assms(2)[of off] by (cases "off < SVS") (simp_all add: stamp_rows_def)
  qed
qed (simp_all add: stamp_rows_def assms)

lemma stamp_rows_none:
  assumes "\<And>off. off < SVS \<Longrightarrow> \<not> (r \<le> b * SVS + off \<and> b * SVS + off < r + n)"
  shows "stamp_rows SVS r n cid b e = e"
proof (rule ChunkInfo.equality)
  show "inserted (stamp_rows SVS r n cid b e) = inserted e"
    using assms by (auto simp: stamp_rows_def fun_eq_iff)
qed (simp_all add: stamp_rows_def)

lemma block_after:
  assumes "k < b" shows "k * SVS + SVS \<le> b * (SVS::nat)"
proof -
  have "Suc k \<le> b" using assms by simp
  then have "Suc k * SVS \<le> b * SVS" by (rule mult_le_mono1)
  then show ?thesis by simp
qed

lemma Append_loop_info:
  assumes "0 < SVS"
  shows "idx < SVS \<Longrightarrow> info vm k = Some e \<Longrightarrow> ChunkInfo.type e = INSERT_INFO \<Longrightarrow>
         k * SVS + idx + n < 2 ^ 63 \<Longrightarrow>
         \<exists>vm'. Append_loop SVS cid n vm k k idx = Inr vm'
           \<and> max_row vm' = max_row vm \<and> VersionManager.base_row vm' = VersionManager.base_row vm
           \<and> (\<forall>b. info vm' b =
                  (if k \<le> b \<and> b * SVS \<le> k * SVS + idx + n
                   then Some (stamp_rows SVS (k * SVS + idx) n cid b (insert_info_of SVS b (info vm b)))
                   else info vm b))"
proof (induction n arbitrary: vm k idx e)
  case 0
  have "info vm b =
          (if k \<le> b \<and> b * SVS \<le> k * SVS + idx + 0
           then Some (stamp_rows SVS (k * SVS + idx) 0 cid b (insert_info_of SVS b (info vm b)))
           else info vm b)" for b
  proof (cases "k \<le> b \<and> b * SVS \<le> k * SVS + idx + 0")
    case False
    then show ?thesis by auto
  next
    case True
    have "b = k"
    proof (rule ccontr)
      assume "b \<noteq> k"
      then have "k < b" using True by simp
      from block_after[OF this, of SVS] True 0(1) show False by simp
    qed
    moreover have "stamp_rows SVS (k * SVS + idx) 0 cid k e = e"
      by (rule stamp_rows_none) simp
    ultimately show ?thesis using True 0(2,3) by (simp add: insert_info_of_insert)
  qed
  then show ?case by simp
next
  case (Suc n)
  let ?e1 = "e\<lparr>inserted := (inserted e)(idx \<mapsto> cid)\<rparr>"
  let ?vm1 = "vm\<lparr>info := (info vm)(k \<mapsto> ?e1)\<rparr>"
  let ?R = "k * SVS + idx"
  have kle: "k \<le> k * SVS" using assms by simp
  have idx1: "(idx + 1) mod 2 ^ 64 = idx + 1" using Suc.prems(4) by simp
  have "k + 1 \<le> k * SVS + idx + Suc n" using kle by linarith
  then have "k + 1 < 2 ^ 63" using Suc.prems(4) by (rule le_less_trans)
  then have k1: "(k + 1) mod 2 ^ 64 = k + 1" by simp
  have before: "info vm' b = info vm b" if "b < k" "\<And>b. b < k \<Longrightarrow> info vm' b = info ?vm1 b" for vm' b
    using that by simp
  show ?case
  proof (cases "idx + 1 = SVS")
    case True
    let ?vm2 = "?vm1\<lparr>info := (info ?vm1)(k + 1 \<mapsto> insert_info_of SVS (k + 1) (info ?vm1 (k + 1)))\<rparr>"
    have g: "GetInsertInfo SVS ?vm1 (k + 1) = (?vm2, k + 1)" by (rule GetInsertInfo_eq)
    have e2: "info ?vm2 (k + 1) = Some (insert_info_of SVS (k + 1) (info vm (k + 1)))"
      "ChunkInfo.type (insert_info_of SVS (k + 1) (info vm (k + 1))) = INSERT_INFO"
      by (simp_all add: insert_info_of_type)
    have bound: "(k + 1) * SVS + 0 + n < 2 ^ 63" using Suc.prems(4) True by (simp add: algebra_simps)
    have R1: "(k + 1) * SVS = ?R + 1" using True by (simp add: algebra_simps)
    from Suc.IH[OF _ e2 bound] assms
    obtain vm' where r: "Append_loop SVS cid n ?vm2 (k + 1) (k + 1) 0 = Inr vm'"
      and fr: "max_row vm' = max_row ?vm2" "VersionManager.base_row vm' = VersionManager.base_row ?vm2"
      and inf: "\<And>b. info vm' b =
                  (if k + 1 \<le> b \<and> b * SVS \<le> (k + 1) * SVS + 0 + n
                   then Some (stamp_rows SVS ((k + 1) * SVS + 0) n cid b (insert_info_of SVS b (info ?vm2 b)))
                   else info ?vm2 b)"
      by blast
    have run: "Append_loop SVS cid (Suc n) vm k k idx = Inr vm'"
      using Suc.prems(1,2) True idx1 k1 g r by (simp add: Let_def)
    have "info vm' b =
            (if k \<le> b \<and> b * SVS \<le> ?R + Suc n
             then Some (stamp_rows SVS ?R (Suc n) cid b (insert_info_of SVS b (info vm b)))
             else info vm b)" for b
    proof -
      consider "b < k" | "b = k" | "k < b" by linarith
      then show ?thesis
      proof cases
        case 1
        then show ?thesis using inf[of b] by simp
      next
        case 2
        have "?e1 = stamp_rows SVS ?R (Suc n) cid k e"
        proof (rule ChunkInfo.equality)
          show "inserted ?e1 = inserted (stamp_rows SVS ?R (Suc n) cid k e)"
            using True by (auto simp: stamp_rows_def fun_eq_iff)
        qed (simp_all add: stamp_rows_def)
        then show ?thesis using 2 inf[of k] Suc.prems(2,3) by (simp add: insert_info_of_insert)
      next
        case 3
        have ba: "k * SVS + SVS \<le> b * SVS" using 3 by (rule block_after)
        show ?thesis
        proof (cases "b * SVS \<le> ?R + Suc n")
          case False
          then have "\<not> b * SVS \<le> (k + 1) * SVS + 0 + n" using R1 by simp
          moreover have "b \<noteq> k + 1" using False R1 by auto
          ultimately show ?thesis using inf[of b] False 3 by simp
        next
          case le: True
          then have c: "k + 1 \<le> b \<and> b * SVS \<le> (k + 1) * SVS + 0 + n" using R1 3 by simp
          have i2: "insert_info_of SVS b (info ?vm2 b) = insert_info_of SVS b (info vm b)"
            using 3 by (simp add: insert_info_of_idem)
          have "stamp_rows SVS ((k + 1) * SVS + 0) n cid b (insert_info_of SVS b (info vm b))
                = stamp_rows SVS ?R (Suc n) cid b (insert_info_of SVS b (info vm b))"
            using ba True by (intro stamp_rows_cong) (auto simp: algebra_simps)
          then show ?thesis using inf[of b] c le 3 i2 by (simp only: if_True) simp
        qed
      qed
    qed
    then show ?thesis using run fr by simp
  next
    case False
    then have lt: "idx + 1 < SVS" using Suc.prems(1) by simp
    have e1: "info ?vm1 k = Some ?e1" "ChunkInfo.type ?e1 = INSERT_INFO"
      using Suc.prems(3) by simp_all
    have bound: "k * SVS + (idx + 1) + n < 2 ^ 63" using Suc.prems(4) by simp
    from Suc.IH[OF lt e1 bound]
    obtain vm' where r: "Append_loop SVS cid n ?vm1 k k (idx + 1) = Inr vm'"
      and fr: "max_row vm' = max_row ?vm1" "VersionManager.base_row vm' = VersionManager.base_row ?vm1"
      and inf: "\<And>b. info vm' b =
                  (if k \<le> b \<and> b * SVS \<le> k * SVS + (idx + 1) + n
                   then Some (stamp_rows SVS (k * SVS + (idx + 1)) n cid b (insert_info_of SVS b (info ?vm1 b)))
                   else info ?vm1 b)"
      by blast
    have run: "Append_loop SVS cid (Suc n) vm k k idx = Inr vm'"
      using Suc.prems(1,2) False idx1 r by (simp add: Let_def)
    have "info vm' b =
            (if k \<le> b \<and> b * SVS \<le> ?R + Suc n
             then Some (stamp_rows SVS ?R (Suc n) cid b (insert_info_of SVS b (info vm b)))
             else info vm b)" for b
    proof -
      consider "b < k" | "b = k" | "k < b" by linarith
      then show ?thesis
      proof cases
        case 1
        then show ?thesis using inf[of b] by simp
      next
        case 2
        have "stamp_rows SVS (k * SVS + (idx + 1)) n cid k ?e1 = stamp_rows SVS ?R (Suc n) cid k e"
          by (rule stamp_rows_cong) (auto simp: Suc.prems(1))
        then show ?thesis using 2 inf[of k] Suc.prems(2,3) by (simp add: insert_info_of_insert)
      next
        case 3
        have ba: "k * SVS + SVS \<le> b * SVS" using 3 by (rule block_after)
        have "stamp_rows SVS (k * SVS + (idx + 1)) n cid b (insert_info_of SVS b (info vm b))
                = stamp_rows SVS ?R (Suc n) cid b (insert_info_of SVS b (info vm b))"
          using ba lt by (intro stamp_rows_cong) auto
        then show ?thesis using inf[of b] 3 by simp
      qed
    qed
    then show ?thesis using run fr by simp
  qed
qed


lemma Append_start_block:
  assumes "0 < SVS" "0 \<le> row_start" "row_start < 2 ^ 63"
  shows "as_index_t (row_start sdiv int SVS) = nat row_start div SVS"
    and "as_index_t (row_start - int (nat row_start div SVS) * int SVS) = nat row_start mod SVS"
proof -
  show "as_index_t (row_start sdiv int SVS) = nat row_start div SVS"
    using assms by (rule RevertAppend_chunk_end(1))
  obtain r where r: "row_start = int r" using assms(2) by (metis nonneg_int_cases)
  have "int r - int (r div SVS) * int SVS = int (r mod SVS)"
    by (simp add: zmod_int zdiv_int minus_div_mult_eq_mod)
  moreover have "r mod SVS < 2 ^ 64"
  proof -
    have "r mod SVS \<le> r" by simp
    moreover have "r < 2 ^ 64" using assms(3) r by simp
    ultimately show ?thesis by (rule le_less_trans)
  qed
  ultimately show "as_index_t (row_start - int (nat row_start div SVS) * int SVS)
      = nat row_start mod SVS"
    unfolding r by (simp add: as_index_t_int)
qed

lemma Append_info:
  assumes "0 < SVS" "0 \<le> row_start" "row_start + int n < 2 ^ 63"
  shows "\<exists>vm'. Append SVS vm txn row_start n commit_id = Inr vm'
           \<and> max_row vm' = (max_row vm + n) mod 2 ^ 64
           \<and> VersionManager.base_row vm' = VersionManager.base_row vm
           \<and> (\<forall>b. info vm' b =
                  (if nat row_start div SVS \<le> b \<and> b * SVS \<le> nat row_start + n
                   then Some (stamp_rows SVS (nat row_start) n commit_id b
                                (insert_info_of SVS b (info vm b)))
                   else info vm b))"
proof -
  let ?r = "nat row_start"
  let ?k = "?r div SVS"
  let ?vm1 = "vm\<lparr>info := (info vm)(?k \<mapsto> insert_info_of SVS ?k (info vm ?k))\<rparr>"
  have lt: "row_start < 2 ^ 63" using assms(3) by linarith
  have g: "GetInsertInfo SVS vm ?k = (?vm1, ?k)" by (rule GetInsertInfo_eq)
  have e: "info ?vm1 ?k = Some (insert_info_of SVS ?k (info vm ?k))"
    "ChunkInfo.type (insert_info_of SVS ?k (info vm ?k)) = INSERT_INFO"
    by (simp_all add: insert_info_of_type)
  have split: "?k * SVS + ?r mod SVS = ?r" by simp
  have "int (?r + n) < 2 ^ 63" using assms(2,3) by simp
  then have "?r + n < 2 ^ 63" by (simp only: of_nat_less_numeral_power_cancel_iff)
  then have bound: "?k * SVS + ?r mod SVS + n < 2 ^ 63" by (simp only: split)
  have "?r mod SVS < SVS" using assms(1) by simp
  from Append_loop_info [OF assms(1) this e bound, of commit_id]
  obtain vm' where run: "Append_loop SVS commit_id n ?vm1 ?k ?k (?r mod SVS) = Inr vm'"
    and fr: "max_row vm' = max_row ?vm1" "VersionManager.base_row vm' = VersionManager.base_row ?vm1"
    and inf: "\<And>b. info vm' b =
                (if ?k \<le> b \<and> b * SVS \<le> ?k * SVS + ?r mod SVS + n
                 then Some (stamp_rows SVS (?k * SVS + ?r mod SVS) n commit_id b
                              (insert_info_of SVS b (info ?vm1 b)))
                 else info ?vm1 b)"
    by blast
  have a: "Append SVS vm txn row_start n commit_id
          = Inr (vm'\<lparr>max_row := (max_row vm' + n) mod 2 ^ 64\<rparr>)"
    unfolding Append_def Let_def Append_start_block [OF assms(1,2) lt] g
    by (simp add: run)
  have here: "?k * SVS \<le> ?r + n"
  proof -
    have "?k * SVS \<le> ?r" by simp
    then show ?thesis by linarith
  qed
  have "info vm' b =
          (if ?k \<le> b \<and> b * SVS \<le> ?r + n
           then Some (stamp_rows SVS ?r n commit_id b (insert_info_of SVS b (info vm b)))
           else info vm b)" for b
  proof (cases "b = ?k")
    case True
    then show ?thesis using inf[of b] here unfolding split by (simp add: insert_info_of_idem)
  next
    case False
    then show ?thesis using inf[of b] unfolding split by simp
  qed
  then show ?thesis using a fr by simp
qed

text \<open>
  C6. For a non-negative \<open>row_start\<close> with \<open>row_start + count\<close> inside the range of
  \<open>row_t\<close>, \<open>Append\<close> returns; \<open>max_row\<close> has advanced by \<open>count\<close> in unsigned 64-bit
  arithmetic and \<open>base_row\<close> is as it was; each of the \<open>count\<close> rows starting at
  \<open>row_start\<close> has its slot (row modulo \<open>SVS\<close>) stamped with \<open>commit_id\<close> in the entry of
  its containing block (row divided by \<open>SVS\<close>), that entry being an insert-info. The entry
  of every block is known exactly. A block from the one holding \<open>row_start\<close> to the last
  one that starts at or before \<open>row_start + count\<close> holds the insert-info it had (obtained:
  its start, its deletions and its other stamps are kept), a new insert-info where it had
  no entry (created), or the promotion of the delete-info it had (promoted: its start and
  its deletions are kept), in each case with the slots of the appended rows, and no other
  slot, stamped with \<open>commit_id\<close>. The entry of every other block is as it was.
\<close>

theorem Append_stamps_rows:
  assumes "0 < SVS" "0 \<le> row_start" "row_start + int n < 2 ^ 63"
  shows "\<exists>vm'. Append SVS vm txn row_start n commit_id = Inr vm'
           \<and> max_row vm' = (max_row vm + n) mod 2 ^ 64
           \<and> (\<forall>i<n. stamped vm' ((nat row_start + i) div SVS) ((nat row_start + i) mod SVS)
                        commit_id)
           \<and> VersionManager.base_row vm' = VersionManager.base_row vm
           \<and> (\<forall>b. info vm' b =
                  (if nat row_start div SVS \<le> b \<and> b * SVS \<le> nat row_start + n
                   then Some (stamp_rows SVS (nat row_start) n commit_id b
                                (insert_info_of SVS b (info vm b)))
                   else info vm b))"
proof -
  let ?r = "nat row_start"
  from Append_info [OF assms, of vm txn commit_id]
  obtain vm' where a: "Append SVS vm txn row_start n commit_id = Inr vm'"
    and m: "max_row vm' = (max_row vm + n) mod 2 ^ 64"
    and b: "VersionManager.base_row vm' = VersionManager.base_row vm"
    and inf: "\<And>b. info vm' b =
                  (if ?r div SVS \<le> b \<and> b * SVS \<le> ?r + n
                   then Some (stamp_rows SVS ?r n commit_id b (insert_info_of SVS b (info vm b)))
                   else info vm b)"
    by blast
  have "stamped vm' ((?r + i) div SVS) ((?r + i) mod SVS) commit_id" if "i < n" for i
  proof -
    let ?b = "(?r + i) div SVS"
    have 1: "?r div SVS \<le> ?b" by (rule div_le_mono) simp
    have "?b * SVS \<le> ?r + i" by simp
    then have 2: "?b * SVS \<le> ?r + n" using that by linarith
    have 3: "?b * SVS + (?r + i) mod SVS = ?r + i" by simp
    have 4: "(?r + i) mod SVS < SVS" using assms(1) by simp
    show ?thesis
      using 1 2 4 that unfolding stamped_def inf[of ?b]
      by (simp add: stamp_rows_def insert_info_of_type 3)
  qed
  then show ?thesis using a m b inf by blast
qed

theorem Append_stamps_rows_witness:
  "map_sum id (\<lambda>v. (max_row v, stamped v 0 2 9, stamped v 0 3 9, stamped v 1 0 9,
                    stamped v 1 1 9, stamped v 1 2 9,
                    map_option (\<lambda>e. (ChunkInfo.type e, start e, deleted e 1, inserted e 0, inserted e 1))
                      (info v 0),
                    map_option (\<lambda>e. (ChunkInfo.type e, start e, deleted e 2, inserted e 3)) (info v 1),
                    info v 2, info v 3))
     (Append 4 \<lparr>VersionManager.base_row = 0, max_row = 2,
                info = [0 \<mapsto> (ChunkInsertInfo 0)\<lparr>deleted := [1 \<mapsto> 6], inserted := [0 \<mapsto> 5]\<rparr>,
                        1 \<mapsto> (ChunkDeleteInfo 4)\<lparr>deleted := [2 \<mapsto> 8]\<rparr>,
                        3 \<mapsto> ChunkDeleteInfo 12]\<rparr>
        \<lparr>transaction_id = 3, undo_buffer = []\<rparr> 2 5 9)
   = Inr (7, True, True, True, True, True,
          Some (INSERT_INFO, 0, Some 6, Some 5, None),
          Some (INSERT_INFO, 4, Some 8, None),
          None, Some (ChunkDeleteInfo 12))"
proof -
  let ?vm = "\<lparr>VersionManager.base_row = 0, max_row = 2,
                info = [0 \<mapsto> (ChunkInsertInfo 0)\<lparr>deleted := [1 \<mapsto> 6], inserted := [0 \<mapsto> 5]\<rparr>,
                        1 \<mapsto> (ChunkDeleteInfo 4)\<lparr>deleted := [2 \<mapsto> 8]\<rparr>,
                        3 \<mapsto> ChunkDeleteInfo 12]\<rparr>"
  let ?t = "\<lparr>transaction_id = 3, undo_buffer = []\<rparr>"
  have pre: "0 < (4::nat)" "(0::int) \<le> 2" "(2::int) + int 5 < 2 ^ 63" by simp_all
  from Append_stamps_rows [OF pre, of ?vm ?t 9]
  obtain vm' where r: "Append 4 ?vm ?t 2 5 9 = Inr vm'"
    and m: "max_row vm' = (max_row ?vm + 5) mod 2 ^ 64"
    and st: "\<And>i. i < 5 \<Longrightarrow> stamped vm' ((nat 2 + i) div 4) ((nat 2 + i) mod 4) 9"
    and inf: "\<And>b. info vm' b =
                  (if nat 2 div 4 \<le> b \<and> b * 4 \<le> nat 2 + 5
                   then Some (stamp_rows 4 (nat 2) 5 9 b (insert_info_of 4 b (info ?vm b)))
                   else info ?vm b)"
    by blast
  have "stamped vm' 0 2 9" using st [of 0] by simp
  moreover have "stamped vm' 0 3 9" using st [of 1] by simp
  moreover have "stamped vm' 1 0 9" using st [of 2] by simp
  moreover have "stamped vm' 1 1 9" using st [of 3] by simp
  moreover have "stamped vm' 1 2 9" using st [of 4] by simp
  moreover have "max_row vm' = 7" using m by simp
  moreover have "map_option (\<lambda>e. (ChunkInfo.type e, start e, deleted e 1, inserted e 0, inserted e 1))
                      (info vm' 0) = Some (INSERT_INFO, 0, Some 6, Some 5, None)"
    unfolding inf [of 0]
    by (simp add: stamp_rows_def insert_info_of_def ChunkInsertInfo_def)
  moreover have "map_option (\<lambda>e. (ChunkInfo.type e, start e, deleted e 2, inserted e 3)) (info vm' 1)
                   = Some (INSERT_INFO, 4, Some 8, None)"
    unfolding inf [of 1]
    by (simp add: stamp_rows_def insert_info_of_def ChunkInsertInfo_from_def ChunkDeleteInfo_def)
  moreover have "info vm' 2 = None" unfolding inf [of 2] by simp
  moreover have "info vm' 3 = Some (ChunkDeleteInfo 12)" unfolding inf [of 3] by simp
  ultimately show ?thesis unfolding r by simp
qed

section \<open>Delete\<close>

lemma fold_Delete_calls:
  "fold (\<lambda>k s. (\<lambda>i k (m, st). (m, case st of Inl e \<Rightarrow> Inl e
                     | Inr s \<Rightarrow> VersionDeleteState_Delete SVS s (g i)))
                 (sel_index (fst s) sel k) k s) ks (mem, st)
   = (mem, case st of Inl e \<Rightarrow> Inl e
           | Inr s \<Rightarrow> Delete_all SVS s (map (\<lambda>k. g (sel_index mem sel k)) ks))"
proof (induction ks arbitrary: st)
  case Nil
  then show ?case by (simp split: sum.splits)
next
  case (Cons k ks)
  show ?case
    by (cases st) (simp_all add: Cons.IH split: sum.splits)
qed

lemma VersionManager_Delete_eq:
  "VersionManager_Delete SVS mem vm t row_ids =
     (case Delete_all SVS (VersionDeleteState_init SVS vm t (VersionManager.base_row vm))
             (map (\<lambda>x. as_row_t (x - int (VersionManager.base_row vm))) (ids_of mem row_ids)) of
        Inl e \<Rightarrow> Inl e
      | Inr s \<Rightarrow> (case Flush s of Inl e \<Rightarrow> Inl e | Inr s' \<Rightarrow> Inr (manager s', transaction s')))"
  unfolding VersionManager_Delete_def VectorOperations_Exec_def Let_def ids_of_def
  by (simp add: fold_Delete_calls [where g = "\<lambda>i. as_row_t (data_mem mem (data row_ids) i - int (VersionManager.base_row vm))"] comp_def)

lemma Flush_not_OutOfBounds: "Flush s \<noteq> Inl OutOfBounds"
  by (simp add: Flush_def split: option.splits)

lemma Flush_count_rows:
  "Flush s = Inr s' \<Longrightarrow> VersionDeleteState.count s' \<le> VersionDeleteState.count s \<and> rows s' = rows s"
  by (auto simp: Flush_def split: option.splits if_splits)

lemma Delete_step_bound:
  assumes "VersionDeleteState.count s < length (rows s)"
  shows "VersionDeleteState_Delete SVS s r \<noteq> Inl OutOfBounds"
    and "VersionDeleteState_Delete SVS s r = Inr s' \<Longrightarrow>
           VersionDeleteState.count s' \<le> VersionDeleteState.count s + 1 \<and> length (rows s') = length (rows s)"
  using assms Flush_not_OutOfBounds [of s]
  by (auto simp: VersionDeleteState_Delete_def Let_def
      split: sum.splits option.splits if_splits dest!: Flush_count_rows)

lemma Delete_all_bound:
  "VersionDeleteState.count s + length rs \<le> length (rows s) \<Longrightarrow>
   Delete_all SVS s rs \<noteq> Inl OutOfBounds"
proof (induction rs arbitrary: s)
  case Nil
  then show ?case by simp
next
  case (Cons r rs)
  then have lt: "VersionDeleteState.count s < length (rows s)" by simp
  show ?case
  proof (cases "VersionDeleteState_Delete SVS s r")
    case (Inl e)
    then show ?thesis using Delete_step_bound(1) [OF lt, of SVS r] by auto
  next
    case (Inr s')
    then have "VersionDeleteState.count s' + length rs \<le> length (rows s')"
      using Delete_step_bound(2) [OF lt, of SVS r s'] Cons.prems by simp
    then show ?thesis using Cons.IH Inr by simp
  qed
qed


lemma as_row_t_id: "- (2 ^ 63) \<le> x \<Longrightarrow> x < 2 ^ 63 \<Longrightarrow> as_row_t x = x"
  by (simp add: as_row_t_def)

text \<open>The runs partition the list into non-empty, maximal pieces of one block each.\<close>

lemma runs_nonempty: "xs \<noteq> [] \<Longrightarrow> runs f xs \<noteq> []"
  by (cases xs) (simp_all split: list.splits)

lemma runs_Nil_iff: "(runs f xs = []) = (xs = [])"
  using runs_nonempty [of xs f] by (cases xs) auto

lemma runs_concat: "concat (runs f xs) = xs"
proof (induction xs)
  case Nil
  then show ?case by simp
next
  case (Cons x xs)
  then show ?case by (cases "runs f xs") auto
qed

lemma runs_no_empty_run: "[] \<notin> set (runs f xs)"
proof (induction xs)
  case Nil
  then show ?case by simp
next
  case (Cons x xs)
  then show ?case by (cases "runs f xs") auto
qed

lemma hd_runs: "xs \<noteq> [] \<Longrightarrow> hd (hd (runs f xs)) = hd xs"
  by (cases xs) (simp_all split: list.splits)

lemma runs_same_block: "r \<in> set (runs f xs) \<Longrightarrow> \<forall>x\<in>set r. f x = f (hd r)"
proof (induction xs arbitrary: r)
  case Nil
  then show ?case by simp
next
  case (Cons y ys)
  show ?case
  proof (cases "runs f ys")
    case Nil
    then show ?thesis using Cons.prems by simp
  next
    case c: (Cons r0 rs)
    have r0: "\<forall>z\<in>set r0. f z = f (hd r0)" using Cons.IH [of r0] c by simp
    have rest: "\<And>r. r \<in> set rs \<Longrightarrow> \<forall>z\<in>set r. f z = f (hd r)"
      using Cons.IH c by simp
    show ?thesis
    proof (cases "f y = f (hd r0)")
      case True
      then have "r = y # r0 \<or> r \<in> set rs" using Cons.prems c by simp
      then show ?thesis using r0 rest True by auto
    next
      case False
      then have "r = [y] \<or> r = r0 \<or> r \<in> set rs" using Cons.prems c by simp
      then show ?thesis using r0 rest by auto
    qed
  qed
qed

lemma runs_maximal:
  "runs f xs = rs1 @ r1 # r2 # rs2 \<Longrightarrow> f (hd r1) \<noteq> f (hd r2)"
proof (induction xs arbitrary: rs1 r1)
  case Nil
  then show ?case by simp
next
  case (Cons y ys)
  show ?case
  proof (cases "runs f ys")
    case Nil
    then show ?thesis using Cons.prems by (cases rs1) simp_all
  next
    case c: (Cons r0 rs)
    show ?thesis
    proof (cases "f y = f (hd r0)")
      case True
      then have eq: "(y # r0) # rs = rs1 @ r1 # r2 # rs2" using Cons.prems c by simp
      show ?thesis
      proof (cases rs1)
        case Nil
        then have "r1 = y # r0" "rs = r2 # rs2" using eq by simp_all
        then have "runs f ys = [] @ r0 # r2 # rs2" using c by simp
        from Cons.IH [OF this] show ?thesis using \<open>r1 = y # r0\<close> True by simp
      next
        case (Cons a as)
        then have "runs f ys = (r0 # as) @ r1 # r2 # rs2" using eq c by simp
        from Cons.IH [OF this] show ?thesis .
      qed
    next
      case False
      then have eq: "[y] # r0 # rs = rs1 @ r1 # r2 # rs2" using Cons.prems c by simp
      show ?thesis
      proof (cases rs1)
        case Nil
        then have "r1 = [y]" "r2 = r0" using eq by simp_all
        then show ?thesis using False by simp
      next
        case (Cons a as)
        then have "runs f ys = as @ r1 # r2 # rs2" using eq c by simp
        from Cons.IH [OF this] show ?thesis .
      qed
    qed
  qed
qed

lemma runs_single_block:
  "p \<noteq> [] \<Longrightarrow> \<forall>x\<in>set p. f x = c \<Longrightarrow> runs f p = [p]"
proof (induction p)
  case Nil
  then show ?case by simp
next
  case (Cons x p)
  show ?case
  proof (cases p)
    case Nil
    then show ?thesis by simp
  next
    case (Cons y ys)
    then have "runs f p = [p]" using Cons.IH Cons.prems by simp
    moreover have "f x = f (hd p)" using Cons.prems Cons by simp
    ultimately show ?thesis by simp
  qed
qed

lemma runs_block_change:
  "p \<noteq> [] \<Longrightarrow> \<forall>x\<in>set p. f x = c \<Longrightarrow> f y \<noteq> c \<Longrightarrow>
   runs f (p @ y # ys) = p # runs f (y # ys)"
proof (induction p)
  case Nil
  then show ?case by simp
next
  case (Cons x p)
  obtain r0 rs where r: "runs f (y # ys) = r0 # rs"
    using runs_nonempty [of "y # ys" f] by (cases "runs f (y # ys)") auto
  have h: "hd r0 = y" using hd_runs [of "y # ys" f] r by simp
  show ?case
  proof (cases p)
    case Nil
    then show ?thesis using Cons.prems r h by simp
  next
    case c: (Cons z zs)
    then have "runs f (p @ y # ys) = p # runs f (y # ys)" using Cons.IH Cons.prems by simp
    moreover have "f x = f (hd p)" using Cons.prems c by simp
    ultimately show ?thesis by simp
  qed
qed

text \<open>The arithmetic of one call of Delete on a row id of the manager.\<close>

lemma Delete_row_arith:
  assumes S: "0 < SVS" and lo: "int base \<le> x" and hi: "x < 2 ^ 63"
  defines "c \<equiv> block_of SVS base x"
  shows "as_index_t (as_row_t (x - int base) sdiv int SVS) = c"
    and "as_row_t (int (as_index_t (as_row_t (x - int base) - int c * int SVS)))
           = (x - int base) mod int SVS"
    and "as_index_t (int c * int SVS) = c * SVS"
    and "c \<noteq> 2 ^ 64 - 1"
    and "as_index_t (int base + int (c * SVS)) = base + c * SVS"
proof -
  let ?r = "x - int base"
  have r0: "0 \<le> ?r" using lo by simp
  have r1: "?r < 2 ^ 63" using lo hi by linarith
  have rel: "as_row_t ?r = ?r" using r0 r1 by (intro as_row_t_id) auto
  have c: "c = nat ?r div SVS" by (simp add: c_def block_of_def)
  show 1: "as_index_t (as_row_t ?r sdiv int SVS) = c"
    unfolding rel c using S r0 r1 by (rule RevertAppend_chunk_end(1))
  have idx: "as_index_t (?r - int c * int SVS) = nat ?r mod SVS"
    unfolding c using S r0 r1 by (rule Append_start_block(2))
  have "nat ?r mod SVS \<le> nat ?r" by simp
  then have "int (nat ?r mod SVS) \<le> ?r" using r0 by linarith
  then have "int (nat ?r mod SVS) < 2 ^ 63" using r1 by linarith
  then have "as_row_t (int (nat ?r mod SVS)) = int (nat ?r mod SVS)"
    by (intro as_row_t_id) auto
  moreover have "int (nat ?r mod SVS) = ?r mod int SVS"
    using r0 by (simp add: zmod_int)
  ultimately show "as_row_t (int (as_index_t (as_row_t ?r - int c * int SVS))) = ?r mod int SVS"
    unfolding rel idx by simp
  have cle: "c * SVS \<le> nat ?r" unfolding c by simp
  have nr: "nat ?r < 2 ^ 63" using r0 r1 by simp
  have cS: "c * SVS < 2 ^ 63" using cle nr by (rule le_less_trans)
  then have "c * SVS < 2 ^ 64" by simp
  then have "as_index_t (int (c * SVS)) = c * SVS" by (rule as_index_t_int)
  then show "as_index_t (int c * int SVS) = c * SVS" by simp
  have "c \<le> c * SVS" using S by simp
  then have "c < 2 ^ 63" using cS by (rule le_less_trans)
  then show "c \<noteq> 2 ^ 64 - 1" by simp
  have "int base + int (nat ?r) = x" using r0 by simp
  then have "int (base + nat ?r) < 2 ^ 63" using hi by simp
  then have "base + nat ?r < 2 ^ 63" by (simp only: of_nat_less_numeral_power_cancel_iff)
  moreover have "base + c * SVS \<le> base + nat ?r" using cle by simp
  ultimately have "base + c * SVS < 2 ^ 63" by (rule le_less_trans[rotated])
  then have "base + c * SVS < 2 ^ 64" by simp
  then have "as_index_t (int (base + c * SVS)) = base + c * SVS" by (rule as_index_t_int)
  then show "as_index_t (int base + int (c * SVS)) = base + c * SVS" by simp
qed


lemma Delete_same_block:
  assumes "0 < SVS" "int base \<le> x" "x < 2 ^ 63"
    and "current_chunk s = block_of SVS base x"
    and "VersionDeleteState.count s < length (rows s)"
  shows "VersionDeleteState_Delete SVS s (as_row_t (x - int base)) =
           Inr (s\<lparr>rows := (rows s)[VersionDeleteState.count s := (x - int base) mod int SVS],
                   count := VersionDeleteState.count s + 1\<rparr>)"
  unfolding VersionDeleteState_Delete_def Let_def
    Delete_row_arith(1) [OF assms(1,2,3)] Delete_row_arith(2) [OF assms(1,2,3)]
  using assms(4,5) by simp

lemma Delete_block_change:
  assumes "0 < SVS" "int base \<le> x" "x < 2 ^ 63"
    and "current_chunk s \<noteq> block_of SVS base x"
    and "Flush s = Inr s1" "VersionDeleteState.count s1 = 0" "0 < length (rows s1)"
  shows "VersionDeleteState_Delete SVS s (as_row_t (x - int base)) =
           Inr (s1\<lparr>manager := (case info (manager s1) (block_of SVS base x) of
                                   None \<Rightarrow> (manager s1)\<lparr>info := (info (manager s1))(block_of SVS base x \<mapsto>
                                       ChunkDeleteInfo (block_of SVS base x * SVS))\<rparr>
                                 | Some entry \<Rightarrow> manager s1),
                    current_info := Some (block_of SVS base x),
                    current_chunk := block_of SVS base x,
                    chunk_row := block_of SVS base x * SVS,
                    rows := (rows s1)[0 := (x - int base) mod int SVS],
                    count := 1\<rparr>)"
  unfolding VersionDeleteState_Delete_def Let_def
    Delete_row_arith(1) [OF assms(1,2,3)] Delete_row_arith(2) [OF assms(1,2,3)]
    Delete_row_arith(3) [OF assms(1,2,3)]
  using assms(4,5,6,7) by (simp split: option.splits)

lemma Flush_run:
  assumes "VersionDeleteState.count s = length p" "p \<noteq> []"
    and "current_info s = Some c" "info (manager s) c = Some entry"
  shows "Flush s =
           Inr (s\<lparr>manager := (manager s)\<lparr>info := (info (manager s))(c \<mapsto>
                       ChunkInfo_Delete entry (transaction s) (rows s) (length p))\<rparr>,
                   transaction := PushDelete (transaction s) c (rows s) (length p)
                       (as_index_t (int (VersionDeleteState.base_row s) + int (chunk_row s))),
                   count := 0\<rparr>)"
  using assms by (simp add: Flush_def)

lemma Delete_all_undo:
  assumes S: "0 < SVS"
  shows "p \<noteq> [] \<Longrightarrow> \<forall>x\<in>set p. block_of SVS base x = c \<Longrightarrow>
     \<forall>x\<in>set (p @ xs). int base \<le> x \<and> x < 2 ^ 63 \<Longrightarrow>
     VersionDeleteState.count s = length p \<Longrightarrow>
     take (length p) (rows s) = map (\<lambda>x. (x - int base) mod int SVS) p \<Longrightarrow>
     length (rows s) = SVS \<Longrightarrow> length p + length xs \<le> SVS \<Longrightarrow>
     current_chunk s = c \<Longrightarrow> current_info s = Some c \<Longrightarrow> chunk_row s = c * SVS \<Longrightarrow>
     info (manager s) c \<noteq> None \<Longrightarrow> VersionDeleteState.base_row s = base \<Longrightarrow>
     \<exists>s' s''. Delete_all SVS s (map (\<lambda>x. as_row_t (x - int base)) xs) = Inr s'
        \<and> Flush s' = Inr s''
        \<and> undo_buffer (transaction s'') =
            undo_buffer (transaction s) @
              map (undo_of_run SVS base) (runs (block_of SVS base) (p @ xs))"
proof (induction xs arbitrary: p c s)
  case Nil
  obtain entry where entry: "info (manager s) c = Some entry" using Nil.prems(11) by auto
  have dom: "int base \<le> hd p \<and> hd p < 2 ^ 63" using Nil.prems(1,3) by simp
  have hdc: "block_of SVS base (hd p) = c" using Nil.prems(1,2) by simp
  have abs: "as_index_t (int base + int (c * SVS)) = base + c * SVS"
    using Delete_row_arith(5) [OF S, of base "hd p"] dom hdc by simp
  have fl: "Flush s = Inr (s\<lparr>manager := (manager s)\<lparr>info := (info (manager s))(c \<mapsto>
                       ChunkInfo_Delete entry (transaction s) (rows s) (length p))\<rparr>,
                   transaction := PushDelete (transaction s) c (rows s) (length p)
                       (as_index_t (int (VersionDeleteState.base_row s) + int (chunk_row s))),
                   count := 0\<rparr>)"
    using Nil.prems(4) Nil.prems(1) Nil.prems(9) entry by (rule Flush_run)
  have "runs (block_of SVS base) p = [p]"
    using Nil.prems(1,2) by (rule runs_single_block)
  then show ?case
    using fl Nil.prems(5,10,12) abs hdc
    by (simp add: PushDelete_def undo_of_run_def)
next
  case (Cons x xs)
  have domx: "int base \<le> x" "x < 2 ^ 63" using Cons.prems(3) by simp_all
  have lt: "VersionDeleteState.count s < length (rows s)" using Cons.prems(4,6,7) by simp
  show ?case
  proof (cases "block_of SVS base x = c")
    case True
    let ?s1 = "s\<lparr>rows := (rows s)[VersionDeleteState.count s := (x - int base) mod int SVS],
                   count := VersionDeleteState.count s + 1\<rparr>"
    have step: "VersionDeleteState_Delete SVS s (as_row_t (x - int base)) = Inr ?s1"
      using S domx _ lt by (rule Delete_same_block) (simp add: True Cons.prems(8))
    have tk: "take (length (p @ [x])) (rows ?s1) = map (\<lambda>x. (x - int base) mod int SVS) (p @ [x])"
      using Cons.prems(4,5) lt by (simp add: take_Suc_conv_app_nth)
    have "\<exists>s' s''. Delete_all SVS ?s1 (map (\<lambda>x. as_row_t (x - int base)) xs) = Inr s'
        \<and> Flush s' = Inr s''
        \<and> undo_buffer (transaction s'') =
            undo_buffer (transaction ?s1) @
              map (undo_of_run SVS base) (runs (block_of SVS base) ((p @ [x]) @ xs))"
    proof (rule Cons.IH [where c = c])
      show "p @ [x] \<noteq> []" by simp
      show "\<forall>x\<in>set (p @ [x]). block_of SVS base x = c" using Cons.prems(2) True by simp
      show "\<forall>x\<in>set ((p @ [x]) @ xs). int base \<le> x \<and> x < 2 ^ 63" using Cons.prems(3) by simp
      show "VersionDeleteState.count ?s1 = length (p @ [x])" using Cons.prems(4) by simp
      show "take (length (p @ [x])) (rows ?s1) = map (\<lambda>x. (x - int base) mod int SVS) (p @ [x])"
        by (rule tk)
      show "length (rows ?s1) = SVS" using Cons.prems(6) by simp
      show "length (p @ [x]) + length xs \<le> SVS" using Cons.prems(7) by simp
      show "current_chunk ?s1 = c" using Cons.prems(8) by simp
      show "current_info ?s1 = Some c" using Cons.prems(9) by simp
      show "chunk_row ?s1 = c * SVS" using Cons.prems(10) by simp
      show "info (manager ?s1) c \<noteq> None" using Cons.prems(11) by simp
      show "VersionDeleteState.base_row ?s1 = base" using Cons.prems(12) by simp
    qed
    then show ?thesis using step by simp
  next
    case False
    let ?c' = "block_of SVS base x"
    obtain entry where entry: "info (manager s) c = Some entry" using Cons.prems(11) by auto
    have dom: "int base \<le> hd p \<and> hd p < 2 ^ 63" using Cons.prems(1,3) by simp
    have hdc: "block_of SVS base (hd p) = c" using Cons.prems(1,2) by simp
    have abs: "as_index_t (int base + int (c * SVS)) = base + c * SVS"
      using Delete_row_arith(5) [OF S, of base "hd p"] dom hdc by simp
    let ?s1 = "s\<lparr>manager := (manager s)\<lparr>info := (info (manager s))(c \<mapsto>
                       ChunkInfo_Delete entry (transaction s) (rows s) (length p))\<rparr>,
                   transaction := PushDelete (transaction s) c (rows s) (length p)
                       (as_index_t (int (VersionDeleteState.base_row s) + int (chunk_row s))),
                   count := 0\<rparr>"
    have fl: "Flush s = Inr ?s1"
      using Cons.prems(4) Cons.prems(1) Cons.prems(9) entry by (rule Flush_run)
    let ?s2 = "?s1\<lparr>manager := (case info (manager ?s1) ?c' of
                                   None \<Rightarrow> (manager ?s1)\<lparr>info := (info (manager ?s1))(?c' \<mapsto>
                                       ChunkDeleteInfo (?c' * SVS))\<rparr>
                                 | Some entry \<Rightarrow> manager ?s1),
                    current_info := Some ?c',
                    current_chunk := ?c',
                    chunk_row := ?c' * SVS,
                    rows := (rows ?s1)[0 := (x - int base) mod int SVS],
                    count := 1\<rparr>"
    have step: "VersionDeleteState_Delete SVS s (as_row_t (x - int base)) = Inr ?s2"
      using S domx _ fl
    proof (rule Delete_block_change)
      show "current_chunk s \<noteq> ?c'" using False Cons.prems(8) by simp
      show "VersionDeleteState.count ?s1 = 0" by simp
      have "0 < length (rows s)" using lt by linarith
      then show "0 < length (rows ?s1)" by simp
    qed
    have undo1: "undo_buffer (transaction ?s2) =
                   undo_buffer (transaction s) @ [undo_of_run SVS base p]"
      using Cons.prems(5,10,12) abs hdc by (simp add: PushDelete_def undo_of_run_def)
    have "\<exists>s' s''. Delete_all SVS ?s2 (map (\<lambda>x. as_row_t (x - int base)) xs) = Inr s'
        \<and> Flush s' = Inr s''
        \<and> undo_buffer (transaction s'') =
            undo_buffer (transaction ?s2) @
              map (undo_of_run SVS base) (runs (block_of SVS base) ([x] @ xs))"
    proof (rule Cons.IH [where c = ?c'])
      show "[x] \<noteq> []" by simp
      show "\<forall>y\<in>set [x]. block_of SVS base y = ?c'" by simp
      show "\<forall>x\<in>set ([x] @ xs). int base \<le> x \<and> x < 2 ^ 63" using Cons.prems(3) by simp
      show "VersionDeleteState.count ?s2 = length [x]" by simp
      show "take (length [x]) (rows ?s2) = map (\<lambda>x. (x - int base) mod int SVS) [x]"
        using lt by (cases "rows s") simp_all
      show "length (rows ?s2) = SVS" using Cons.prems(6) by simp
      show "length [x] + length xs \<le> SVS" using Cons.prems(7) by simp
      show "current_chunk ?s2 = ?c'" by simp
      show "current_info ?s2 = Some ?c'" by simp
      show "chunk_row ?s2 = ?c' * SVS" by simp
      show "info (manager ?s2) ?c' \<noteq> None" by (simp split: option.splits)
      show "VersionDeleteState.base_row ?s2 = base" using Cons.prems(12) by simp
    qed
    moreover have "runs (block_of SVS base) (p @ x # xs) = p # runs (block_of SVS base) (x # xs)"
      using Cons.prems(1,2) False by (intro runs_block_change) auto
    ultimately show ?thesis using step undo1 by simp
  qed
qed

lemma init_facts:
  "VersionDeleteState.count (VersionDeleteState_init SVS vm t base) = 0"
  "rows (VersionDeleteState_init SVS vm t base) = replicate SVS 0"
  "current_chunk (VersionDeleteState_init SVS vm t base) = 2 ^ 64 - 1"
  "manager (VersionDeleteState_init SVS vm t base) = vm"
  "transaction (VersionDeleteState_init SVS vm t base) = t"
  "VersionDeleteState.base_row (VersionDeleteState_init SVS vm t base) = base"
  by (simp_all add: VersionDeleteState_init_def)

lemma Flush_empty: "VersionDeleteState.count s = 0 \<Longrightarrow> Flush s = Inr s"
  by (simp add: Flush_def)

text \<open>
  C3. For a vector of at most \<open>SVS\<close> row ids of the manager (each at least \<open>base_row\<close> and
  a non-negative \<open>row_t\<close>), \<open>Delete\<close> returns and has pushed exactly one undo-log entry per
  maximal run of consecutive ids of the same block, in order: the entry of a run carries the
  block's handle, the offsets of the run's rows inside the block, their number and the
  absolute first row of the block. The entry of the last run comes from the final flush.
  The witness has \<open>Delete(T, {row 5, row 3})\<close> on an untouched block: one record for both
  rows.
\<close>

theorem Delete_pushes_one_undo_per_run:
  assumes "0 < SVS" "Vector.count row_ids \<le> SVS"
    and "\<forall>x\<in>set (ids_of mem row_ids). int (VersionManager.base_row vm) \<le> x \<and> x < 2 ^ 63"
  shows "\<exists>vm' t'. VersionManager_Delete SVS mem vm t row_ids = Inr (vm', t')
           \<and> undo_buffer t' = undo_buffer t @
                map (undo_of_run SVS (VersionManager.base_row vm))
                  (runs (block_of SVS (VersionManager.base_row vm)) (ids_of mem row_ids))"
proof (cases "ids_of mem row_ids")
  case Nil
  then show ?thesis
    by (simp add: VersionManager_Delete_eq Flush_empty init_facts)
next
  case (Cons x xs)
  let ?base = "VersionManager.base_row vm"
  let ?s0 = "VersionDeleteState_init SVS vm t ?base"
  let ?c = "block_of SVS ?base x"
  have len: "length (ids_of mem row_ids) = Vector.count row_ids" by (simp add: ids_of_def)
  have domx: "int ?base \<le> x" "x < 2 ^ 63" using assms(3) Cons by simp_all
  let ?s2 = "?s0\<lparr>manager := (case info (manager ?s0) ?c of
                                   None \<Rightarrow> (manager ?s0)\<lparr>info := (info (manager ?s0))(?c \<mapsto>
                                       ChunkDeleteInfo (?c * SVS))\<rparr>
                                 | Some entry \<Rightarrow> manager ?s0),
                    current_info := Some ?c,
                    current_chunk := ?c,
                    chunk_row := ?c * SVS,
                    rows := (rows ?s0)[0 := (x - int ?base) mod int SVS],
                    count := 1\<rparr>"
  have step: "VersionDeleteState_Delete SVS ?s0 (as_row_t (x - int ?base)) = Inr ?s2"
    using assms(1) domx
  proof (rule Delete_block_change)
    show "current_chunk ?s0 \<noteq> ?c"
      using Delete_row_arith(4) [OF assms(1) domx] by (simp add: init_facts)
    show "Flush ?s0 = Inr ?s0" by (simp add: Flush_empty init_facts)
    show "VersionDeleteState.count ?s0 = 0" by (simp add: init_facts)
    show "0 < length (rows ?s0)" using assms(1) by (simp add: init_facts)
  qed
  have "\<exists>s' s''. Delete_all SVS ?s2 (map (\<lambda>x. as_row_t (x - int ?base)) xs) = Inr s'
        \<and> Flush s' = Inr s''
        \<and> undo_buffer (transaction s'') =
            undo_buffer (transaction ?s2) @
              map (undo_of_run SVS ?base) (runs (block_of SVS ?base) ([x] @ xs))"
    using assms(1)
  proof (rule Delete_all_undo [where c = ?c])
    show "[x] \<noteq> []" by simp
    show "\<forall>y\<in>set [x]. block_of SVS ?base y = ?c" by simp
    show "\<forall>x\<in>set ([x] @ xs). int ?base \<le> x \<and> x < 2 ^ 63" using assms(3) Cons by simp
    show "VersionDeleteState.count ?s2 = length [x]" by simp
    show "take (length [x]) (rows ?s2) = map (\<lambda>x. (x - int ?base) mod int SVS) [x]"
      using assms(1) by (cases SVS) (simp_all add: init_facts)
    show "length (rows ?s2) = SVS" by (simp add: init_facts)
    show "length [x] + length xs \<le> SVS" using assms(2) len Cons by simp
    show "current_chunk ?s2 = ?c" by simp
    show "current_info ?s2 = Some ?c" by simp
    show "chunk_row ?s2 = ?c * SVS" by simp
    show "info (manager ?s2) ?c \<noteq> None" by (simp split: option.splits)
    show "VersionDeleteState.base_row ?s2 = ?base" by (simp add: init_facts)
  qed
  then obtain s' s'' where r: "Delete_all SVS ?s2 (map (\<lambda>x. as_row_t (x - int ?base)) xs) = Inr s'"
    and f: "Flush s' = Inr s''"
    and u: "undo_buffer (transaction s'') =
            undo_buffer (transaction ?s2) @
              map (undo_of_run SVS ?base) (runs (block_of SVS ?base) ([x] @ xs))"
    by blast
  have "VersionManager_Delete SVS mem vm t row_ids = Inr (manager s'', transaction s'')"
    unfolding VersionManager_Delete_eq Cons using step r f by simp
  moreover have "undo_buffer (transaction ?s2) = undo_buffer t" by (simp add: init_facts)
  ultimately show ?thesis using u Cons by simp
qed

theorem Delete_pushes_one_undo_per_run_witness:
  "map_sum id (\<lambda>(v, t). undo_buffer t)
     (VersionManager_Delete 1024
        \<lparr>data_mem = (\<lambda>a i. [5, 3] ! i), sel_mem = (\<lambda>a i. 0)\<rparr>
        \<lparr>VersionManager.base_row = 0, max_row = 10, info = Map.empty\<rparr>
        \<lparr>transaction_id = 7, undo_buffer = []\<rparr>
        \<lparr>Vector.type = OTHER_TYPE 0, count = 2, data = 0, owned_data = None,
         sel_vector = None, nullmask = (\<lambda>i. False)\<rparr>)
   = Inr [\<lparr>chunk_info_handle = 0, row_offsets = [5, 3], offset_count = 2,
           absolute_base_row = 0\<rparr>]
   \<and> map_sum id (\<lambda>(v, t). undo_buffer t)
     (VersionManager_Delete 1024
        \<lparr>data_mem = (\<lambda>a i. [1105, 1103, 3100, 1107] ! i), sel_mem = (\<lambda>a i. 0)\<rparr>
        \<lparr>VersionManager.base_row = 100, max_row = 4000, info = Map.empty\<rparr>
        \<lparr>transaction_id = 7, undo_buffer = []\<rparr>
        \<lparr>Vector.type = OTHER_TYPE 0, count = 4, data = 0, owned_data = None,
         sel_vector = None, nullmask = (\<lambda>i. False)\<rparr>)
   = Inr [\<lparr>chunk_info_handle = 0, row_offsets = [1005, 1003], offset_count = 2,
           absolute_base_row = 100\<rparr>,
          \<lparr>chunk_info_handle = 2, row_offsets = [952], offset_count = 1,
           absolute_base_row = 2148\<rparr>,
          \<lparr>chunk_info_handle = 0, row_offsets = [1007], offset_count = 1,
           absolute_base_row = 100\<rparr>]"
proof
  let ?mem = "\<lparr>data_mem = (\<lambda>a i. [5, 3] ! i), sel_mem = (\<lambda>a i. 0)\<rparr>"
  let ?vm = "\<lparr>VersionManager.base_row = 0, max_row = 10, info = Map.empty\<rparr>"
  let ?t = "\<lparr>transaction_id = 7, undo_buffer = []\<rparr>"
  let ?ids = "\<lparr>Vector.type = OTHER_TYPE 0, count = 2, data = 0, owned_data = None,
         sel_vector = None, nullmask = (\<lambda>i. False)\<rparr>"
  have ids: "ids_of ?mem ?ids = [5, 3]"
    by (simp add: ids_of_def sel_index_def upt_rec)
  have pre: "0 < (1024::nat)" "Vector.count ?ids \<le> 1024"
    "\<forall>x\<in>set (ids_of ?mem ?ids). int (VersionManager.base_row ?vm) \<le> x \<and> x < 2 ^ 63"
    by (simp_all add: ids)
  from Delete_pushes_one_undo_per_run [OF pre, of ?t]
  obtain vm' t' where r: "VersionManager_Delete 1024 ?mem ?vm ?t ?ids = Inr (vm', t')"
    and u: "undo_buffer t' = undo_buffer ?t @
                map (undo_of_run 1024 (VersionManager.base_row ?vm))
                  (runs (block_of 1024 (VersionManager.base_row ?vm)) (ids_of ?mem ?ids))"
    by blast
  have "undo_buffer t' = [\<lparr>chunk_info_handle = 0, row_offsets = [5, 3], offset_count = 2,
           absolute_base_row = 0\<rparr>]"
    unfolding u ids by (simp add: undo_of_run_def block_of_def)
  then show "map_sum id (\<lambda>(v, t). undo_buffer t) (VersionManager_Delete 1024 ?mem ?vm ?t ?ids)
    = Inr [\<lparr>chunk_info_handle = 0, row_offsets = [5, 3], offset_count = 2,
           absolute_base_row = 0\<rparr>]"
    unfolding r by simp
next
  let ?mem = "\<lparr>data_mem = (\<lambda>a i. [1105, 1103, 3100, 1107] ! i), sel_mem = (\<lambda>a i. 0)\<rparr>"
  let ?vm = "\<lparr>VersionManager.base_row = 100, max_row = 4000, info = Map.empty\<rparr>"
  let ?t = "\<lparr>transaction_id = 7, undo_buffer = []\<rparr>"
  let ?ids = "\<lparr>Vector.type = OTHER_TYPE 0, count = 4, data = 0, owned_data = None,
         sel_vector = None, nullmask = (\<lambda>i. False)\<rparr>"
  have ids: "ids_of ?mem ?ids = [1105, 1103, 3100, 1107]"
    by (simp add: ids_of_def sel_index_def upt_rec)
  have pre: "0 < (1024::nat)" "Vector.count ?ids \<le> 1024"
    "\<forall>x\<in>set (ids_of ?mem ?ids). int (VersionManager.base_row ?vm) \<le> x \<and> x < 2 ^ 63"
    by (simp_all add: ids)
  from Delete_pushes_one_undo_per_run [OF pre, of ?t]
  obtain vm' t' where r: "VersionManager_Delete 1024 ?mem ?vm ?t ?ids = Inr (vm', t')"
    and u: "undo_buffer t' = undo_buffer ?t @
                map (undo_of_run 1024 (VersionManager.base_row ?vm))
                  (runs (block_of 1024 (VersionManager.base_row ?vm)) (ids_of ?mem ?ids))"
    by blast
  have "undo_buffer t' =
         [\<lparr>chunk_info_handle = 0, row_offsets = [1005, 1003], offset_count = 2,
           absolute_base_row = 100\<rparr>,
          \<lparr>chunk_info_handle = 2, row_offsets = [952], offset_count = 1,
           absolute_base_row = 2148\<rparr>,
          \<lparr>chunk_info_handle = 0, row_offsets = [1007], offset_count = 1,
           absolute_base_row = 100\<rparr>]"
    unfolding u ids by (simp add: undo_of_run_def block_of_def)
  then show "map_sum id (\<lambda>(v, t). undo_buffer t) (VersionManager_Delete 1024 ?mem ?vm ?t ?ids)
    = Inr [\<lparr>chunk_info_handle = 0, row_offsets = [1005, 1003], offset_count = 2,
           absolute_base_row = 100\<rparr>,
          \<lparr>chunk_info_handle = 2, row_offsets = [952], offset_count = 1,
           absolute_base_row = 2148\<rparr>,
          \<lparr>chunk_info_handle = 0, row_offsets = [1007], offset_count = 1,
           absolute_base_row = 100\<rparr>]"
    unfolding r by simp
qed

lemma Delete_all_count:
  "VersionDeleteState.count s + length rs \<le> length (rows s) \<Longrightarrow>
   Delete_all SVS s rs = Inr s' \<Longrightarrow>
   VersionDeleteState.count s' \<le> VersionDeleteState.count s + length rs
     \<and> length (rows s') = length (rows s)"
proof (induction rs arbitrary: s)
  case Nil
  then show ?case by simp
next
  case (Cons r rs)
  then have lt: "VersionDeleteState.count s < length (rows s)" by simp
  from Cons.prems(2) obtain s1 where s1: "VersionDeleteState_Delete SVS s r = Inr s1"
    and rest: "Delete_all SVS s1 rs = Inr s'"
    by (auto split: sum.splits)
  have b: "VersionDeleteState.count s1 \<le> VersionDeleteState.count s + 1"
    "length (rows s1) = length (rows s)"
    using Delete_step_bound(2) [OF lt s1] by simp_all
  then have "VersionDeleteState.count s1 + length rs \<le> length (rows s1)"
    using Cons.prems(1) by simp
  from Cons.IH [OF this rest] show ?case using b by simp
qed

text \<open>
  C10. When the vector of row ids holds at most \<open>SVS\<close> ids, no store \<open>rows[count++]\<close> of
  \<open>VersionDeleteState::Delete\<close> leaves the array: the call never ends in \<open>OutOfBounds\<close>,
  and after any number \<open>n\<close> of processed ids \<open>count\<close> is at most \<open>n\<close>, hence at most
  \<open>SVS\<close>.
\<close>

theorem Delete_rows_writes_in_bounds:
  assumes "Vector.count row_ids \<le> SVS"
  shows "VersionManager_Delete SVS mem vm t row_ids \<noteq> Inl OutOfBounds
         \<and> (\<forall>n s. n \<le> Vector.count row_ids \<and>
               Delete_all SVS (VersionDeleteState_init SVS vm t (VersionManager.base_row vm))
                 (take n (map (\<lambda>x. as_row_t (x - int (VersionManager.base_row vm)))
                            (ids_of mem row_ids))) = Inr s
               \<longrightarrow> VersionDeleteState.count s \<le> n \<and> VersionDeleteState.count s \<le> SVS)"
proof
  let ?s0 = "VersionDeleteState_init SVS vm t (VersionManager.base_row vm)"
  let ?rs = "map (\<lambda>x. as_row_t (x - int (VersionManager.base_row vm))) (ids_of mem row_ids)"
  have len: "length ?rs = Vector.count row_ids" by (simp add: ids_of_def)
  have "VersionDeleteState.count ?s0 + length ?rs \<le> length (rows ?s0)"
    using assms len by (simp add: init_facts)
  then have "Delete_all SVS ?s0 ?rs \<noteq> Inl OutOfBounds" by (rule Delete_all_bound)
  then show "VersionManager_Delete SVS mem vm t row_ids \<noteq> Inl OutOfBounds"
    using Flush_not_OutOfBounds
    by (auto simp: VersionManager_Delete_eq split: sum.splits)
  show "\<forall>n s. n \<le> Vector.count row_ids \<and> Delete_all SVS ?s0 (take n ?rs) = Inr s
               \<longrightarrow> VersionDeleteState.count s \<le> n \<and> VersionDeleteState.count s \<le> SVS"
  proof (intro allI impI)
    fix n s
    assume h: "n \<le> Vector.count row_ids \<and> Delete_all SVS ?s0 (take n ?rs) = Inr s"
    then have ln: "length (take n ?rs) = n" using len by simp
    have "VersionDeleteState.count ?s0 + length (take n ?rs) \<le> length (rows ?s0)"
      using h assms ln by (simp add: init_facts)
    from Delete_all_count [OF this] h
    have "VersionDeleteState.count s \<le> VersionDeleteState.count ?s0 + length (take n ?rs)"
      by blast
    then have "VersionDeleteState.count s \<le> n" by (simp add: ln init_facts)
    then show "VersionDeleteState.count s \<le> n \<and> VersionDeleteState.count s \<le> SVS"
      using h assms by simp
  qed
qed

theorem Delete_rows_writes_in_bounds_witness:
  "VersionManager_Delete 2
     \<lparr>data_mem = (\<lambda>a i. [0, 1] ! i), sel_mem = (\<lambda>a i. 0)\<rparr>
     \<lparr>VersionManager.base_row = 0, max_row = 10, info = Map.empty\<rparr>
     \<lparr>transaction_id = 7, undo_buffer = []\<rparr>
     \<lparr>Vector.type = OTHER_TYPE 0, count = 2, data = 0, owned_data = None,
      sel_vector = None, nullmask = (\<lambda>i. False)\<rparr> \<noteq> Inl OutOfBounds"
proof -
  let ?ids = "\<lparr>Vector.type = OTHER_TYPE 0, count = 2, data = 0, owned_data = None,
      sel_vector = None, nullmask = (\<lambda>i. False)\<rparr>"
  have "Vector.count ?ids \<le> 2" by simp
  from Delete_rows_writes_in_bounds [OF this] show ?thesis by (rule conjunct1)
qed

section \<open>The state machine of a block's entry\<close>

lemma append_step_refl: "append_step a a"
  by (simp add: append_step_def split: option.splits)

lemma append_step_trans: "append_step a b \<Longrightarrow> append_step b c \<Longrightarrow> append_step a c"
  by (auto simp: append_step_def split: option.splits)

lemma GetInsertInfo_append_step:
  "append_step (info vm b) (info (fst (GetInsertInfo SVS vm k)) b)"
  by (cases "ChunkInfo.type (the (info vm k))")
     (auto simp: GetInsertInfo_def append_step_def ChunkInsertInfo_def ChunkInsertInfo_from_def
       split: option.splits)

lemma Append_loop_append_step:
  "Append_loop SVS cid n vm ptr k idx = Inr vm' \<Longrightarrow> append_step (info vm b) (info vm' b)"
proof (induction n arbitrary: vm ptr k idx)
  case 0
  then show ?case by (simp add: append_step_refl)
next
  case (Suc n)
  from Suc.prems obtain e where e: "info vm ptr = Some e" and lt: "idx < SVS"
    by (auto split: option.splits if_splits)
  let ?vm1 = "vm\<lparr>info := (info vm)(ptr \<mapsto> e\<lparr>inserted := (inserted e)(idx \<mapsto> cid)\<rparr>)\<rparr>"
  have s1: "append_step (info vm b) (info ?vm1 b)"
    using e by (auto simp: append_step_def split: option.splits)
  show ?case
  proof (cases "(idx + 1) mod 2 ^ 64 = SVS")
    case True
    let ?g = "GetInsertInfo SVS ?vm1 ((k + 1) mod 2 ^ 64)"
    have "Append_loop SVS cid n (fst ?g) (snd ?g) ((k + 1) mod 2 ^ 64) 0 = Inr vm'"
      using Suc.prems e lt True by (simp add: Let_def split_beta)
    then have "append_step (info (fst ?g) b) (info vm' b)" by (rule Suc.IH)
    moreover have "append_step (info ?vm1 b) (info (fst ?g) b)" by (rule GetInsertInfo_append_step)
    ultimately show ?thesis using s1 append_step_trans by blast
  next
    case False
    have "Append_loop SVS cid n ?vm1 ptr k ((idx + 1) mod 2 ^ 64) = Inr vm'"
      using Suc.prems e lt False by (simp add: Let_def)
    then have "append_step (info ?vm1 b) (info vm' b)" by (rule Suc.IH)
    then show ?thesis using s1 append_step_trans by blast
  qed
qed

lemma Append_append_step:
  assumes "Append SVS vm txn row_start n cid = Inr vm'"
  shows "append_step (info vm b) (info vm' b)"
proof -
  let ?k = "as_index_t (row_start sdiv int SVS)"
  let ?g = "GetInsertInfo SVS vm ?k"
  from assms obtain vm2 where
    l: "Append_loop SVS cid n (fst ?g) (snd ?g) ?k (as_index_t (row_start - int ?k * int SVS)) = Inr vm2"
    and v: "vm' = vm2\<lparr>max_row := (max_row vm2 + n) mod 2 ^ 64\<rparr>"
    by (auto simp: Append_def Let_def split_beta split: sum.splits)
  have "append_step (info (fst ?g) b) (info vm2 b)" using l by (rule Append_loop_append_step)
  moreover have "append_step (info vm b) (info (fst ?g) b)" by (rule GetInsertInfo_append_step)
  ultimately have "append_step (info vm b) (info vm2 b)" by (rule append_step_trans[rotated])
  then show ?thesis by (simp add: v)
qed

lemma append_step_allowed:
  "append_step (info vm b) (info vm' b) \<Longrightarrow> allowed_step (kind vm b) (kind vm' b)"
  by (cases "ChunkInfo.type (the (info vm b))")
     (auto simp: append_step_def allowed_step_def kind_def split: option.splits)

lemma delete_step_refl: "delete_step a a"
  by (simp add: delete_step_def)

lemma delete_step_trans: "delete_step a b \<Longrightarrow> delete_step b c \<Longrightarrow> delete_step a c"
  by (auto simp: delete_step_def)

lemma Flush_delete_step:
  "Flush s = Inr s' \<Longrightarrow> kind (manager s') b = kind (manager s) b"
  by (auto simp: Flush_def kind_def ChunkInfo_Delete_def split: option.splits if_splits)

lemma Delete_delete_step:
  assumes "VersionDeleteState_Delete SVS s r = Inr s'"
  shows "delete_step (kind (manager s) b) (kind (manager s') b)"
proof (cases "as_index_t (r sdiv int SVS) \<noteq> current_chunk s")
  case False
  then have "manager s' = manager s"
    using assms by (auto simp: VersionDeleteState_Delete_def Let_def split: if_splits)
  then show ?thesis by (simp add: delete_step_refl)
next
  case True
  then obtain s1 where f: "Flush s = Inr s1"
    using assms by (auto simp: VersionDeleteState_Delete_def Let_def split: sum.splits)
  have k1: "kind (manager s1) b = kind (manager s) b" using f by (rule Flush_delete_step)
  have "delete_step (kind (manager s1) b) (kind (manager s') b)"
    using assms True f
    by (auto simp: VersionDeleteState_Delete_def Let_def delete_step_def kind_def ChunkDeleteInfo_def
        split: option.splits if_splits)
  then show ?thesis using k1 by simp
qed

lemma Delete_all_delete_step:
  "Delete_all SVS s rs = Inr s' \<Longrightarrow> delete_step (kind (manager s) b) (kind (manager s') b)"
proof (induction rs arbitrary: s)
  case Nil
  then show ?case by (simp add: delete_step_refl)
next
  case (Cons r rs)
  then obtain s1 where s1: "VersionDeleteState_Delete SVS s r = Inr s1"
    and rest: "Delete_all SVS s1 rs = Inr s'"
    by (auto split: sum.splits)
  show ?case
    using Delete_delete_step [OF s1] Cons.IH [OF rest] by (rule delete_step_trans)
qed

lemma VersionManager_Delete_delete_step:
  assumes "VersionManager_Delete SVS mem vm t row_ids = Inr (vm', t')"
  shows "delete_step (kind vm b) (kind vm' b)"
proof -
  let ?s0 = "VersionDeleteState_init SVS vm t (VersionManager.base_row vm)"
  from assms obtain s s' where
    d: "Delete_all SVS ?s0
          (map (\<lambda>x. as_row_t (x - int (VersionManager.base_row vm))) (ids_of mem row_ids)) = Inr s"
    and f: "Flush s = Inr s'" and v: "vm' = manager s'"
    by (auto simp: VersionManager_Delete_eq split: sum.splits)
  have "delete_step (kind (manager ?s0) b) (kind (manager s) b)"
    using d by (rule Delete_all_delete_step)
  then show ?thesis using Flush_delete_step [OF f] v by (simp add: init_facts)
qed

lemma delete_step_allowed: "delete_step a b \<Longrightarrow> allowed_step a b"
  by (auto simp: delete_step_def allowed_step_def)

lemma RevertAppend_loop_only_erases:
  assumes "RevertAppend_loop m cs ce = Some m'"
  shows "\<forall>b. m' b = m b \<or> m' b = None"
  using assms
proof (rule RevertAppend_loop.raw_induct
    [where P = "\<lambda>m cs ce m'. \<forall>b. m' b = m b \<or> m' b = None", rotated])
  fix loop :: "(index_t \<rightharpoonup> ChunkInfo) \<Rightarrow> index_t \<Rightarrow> index_t \<Rightarrow> (index_t \<rightharpoonup> ChunkInfo) option"
    and m cs ce m'
  assume IH: "\<And>m cs ce m'. loop m cs ce = Some m' \<Longrightarrow> \<forall>b. m' b = m b \<or> m' b = None"
    and body: "(if cs \<le> ce then loop (m(cs := None)) ((cs + 1) mod 2 ^ 64) ce else Some m)
                 = Some m'"
  show "\<forall>b. m' b = m b \<or> m' b = None"
  proof (cases "cs \<le> ce")
    case True
    then have "loop (m(cs := None)) ((cs + 1) mod 2 ^ 64) ce = Some m'" using body by simp
    from IH [OF this] have "\<forall>b. m' b = (m(cs := None)) b \<or> m' b = None" .
    then show ?thesis by (metis fun_upd_apply)
  next
    case False
    then show ?thesis using body by simp
  qed
qed

lemma RevertAppend_only_erases:
  assumes "RevertAppend SVS vm row_start row_end = Some vm'"
  shows "info vm' b = info vm b \<or> info vm' b = None"
proof -
  from assms obtain m' where
    l: "RevertAppend_loop (info vm)
          (as_index_t (row_start sdiv int SVS + (if row_start smod int SVS = 0 then 0 else 1)))
          (as_index_t (row_end sdiv int SVS)) = Some m'"
    and v: "vm' = vm\<lparr>info := m'\<rparr>"
    by (auto simp: RevertAppend_def Let_def)
  from RevertAppend_loop_only_erases [OF l] show ?thesis by (simp add: v)
qed

lemma Delete_example:
  "VersionManager_Delete 1024
        \<lparr>data_mem = (\<lambda>a i. 1030), sel_mem = (\<lambda>a i. 0)\<rparr>
        \<lparr>VersionManager.base_row = 0, max_row = 3000, info = Map.empty\<rparr>
        \<lparr>transaction_id = 7, undo_buffer = []\<rparr>
        \<lparr>Vector.type = OTHER_TYPE 0, count = 1, data = 0, owned_data = None,
         sel_vector = None, nullmask = (\<lambda>i. False)\<rparr>
   = Inr (\<lparr>VersionManager.base_row = 0, max_row = 3000,
           info = [1 \<mapsto> (ChunkDeleteInfo 1024)\<lparr>deleted := [6 \<mapsto> 7]\<rparr>]\<rparr>,
          \<lparr>transaction_id = 7,
           undo_buffer = [\<lparr>chunk_info_handle = 1, row_offsets = [6], offset_count = 1,
                            absolute_base_row = 1024\<rparr>]\<rparr>)"
  by (simp add: VersionManager_Delete_eq ids_of_def sel_index_def VersionDeleteState_init_def
      VersionDeleteState_Delete_def Flush_def PushDelete_def as_index_t_def as_row_t_def Let_def
      signed_divide_int_def ChunkInfo_Delete_def ChunkDeleteInfo_def take_Suc_conv_app_nth)

lemma Append_loop_numeral:
  "Append_loop SVS cid (numeral j) vm ptr k idx = Append_loop SVS cid (Suc (pred_numeral j)) vm ptr k idx"
  by (simp add: numeral_eq_Suc)

lemma Append_example:
  "Append 4 \<lparr>VersionManager.base_row = 0, max_row = 2,
             info = [0 \<mapsto> (ChunkDeleteInfo 0)\<lparr>deleted := [1 \<mapsto> 6]\<rparr>]\<rparr>
        \<lparr>transaction_id = 3, undo_buffer = []\<rparr> 2 4 9
   = Inr \<lparr>VersionManager.base_row = 0, max_row = 6,
          info = [0 \<mapsto> (ChunkInsertInfo_from ((ChunkDeleteInfo 0)\<lparr>deleted := [1 \<mapsto> 6]\<rparr>))
                          \<lparr>inserted := [2 \<mapsto> 9, 3 \<mapsto> 9]\<rparr>,
                  1 \<mapsto> (ChunkInsertInfo 4)\<lparr>inserted := [0 \<mapsto> 9, 1 \<mapsto> 9]\<rparr>]\<rparr>"
  by (simp add: Append_def GetInsertInfo_def as_index_t_def signed_divide_int_def Let_def
      ChunkDeleteInfo_def ChunkInsertInfo_from_def ChunkInsertInfo_def Append_loop_numeral [unfolded Append_loop.simps])

lemma history_example:
  "perform_all 4
     [Delete_op \<lparr>data_mem = (\<lambda>a i. 4), sel_mem = (\<lambda>a i. 0)\<rparr>
        \<lparr>transaction_id = 7, undo_buffer = []\<rparr>
        \<lparr>Vector.type = OTHER_TYPE 0, count = 1, data = 0, owned_data = None,
         sel_vector = None, nullmask = (\<lambda>i. False)\<rparr>]
     \<lparr>VersionManager.base_row = 0, max_row = 6,
          info = [0 \<mapsto> (ChunkInsertInfo_from ((ChunkDeleteInfo 0)\<lparr>deleted := [1 \<mapsto> 6]\<rparr>))
                          \<lparr>inserted := [2 \<mapsto> 9, 3 \<mapsto> 9]\<rparr>,
                  1 \<mapsto> (ChunkInsertInfo 4)\<lparr>inserted := [0 \<mapsto> 9, 1 \<mapsto> 9]\<rparr>]\<rparr>
   = Inr \<lparr>VersionManager.base_row = 0, max_row = 6,
          info = [0 \<mapsto> (ChunkInsertInfo_from ((ChunkDeleteInfo 0)\<lparr>deleted := [1 \<mapsto> 6]\<rparr>))
                          \<lparr>inserted := [2 \<mapsto> 9, 3 \<mapsto> 9]\<rparr>,
                  1 \<mapsto> (ChunkInsertInfo 4)\<lparr>inserted := [0 \<mapsto> 9, 1 \<mapsto> 9], deleted := [0 \<mapsto> 7]\<rparr>]\<rparr>"
  by (simp add: VersionManager_Delete_eq ids_of_def sel_index_def VersionDeleteState_init_def
      VersionDeleteState_Delete_def Flush_def PushDelete_def as_index_t_def as_row_t_def Let_def
      signed_divide_int_def ChunkInfo_Delete_def ChunkDeleteInfo_def take_Suc_conv_app_nth
      ChunkInsertInfo_def ChunkInsertInfo_from_def)

lemma RevertAppend_example:
  "RevertAppend 4
     \<lparr>VersionManager.base_row = 0, max_row = 6,
          info = [0 \<mapsto> (ChunkInsertInfo_from ((ChunkDeleteInfo 0)\<lparr>deleted := [1 \<mapsto> 6]\<rparr>))
                          \<lparr>inserted := [2 \<mapsto> 9, 3 \<mapsto> 9]\<rparr>,
                  1 \<mapsto> (ChunkInsertInfo 4)\<lparr>inserted := [0 \<mapsto> 9, 1 \<mapsto> 9], deleted := [0 \<mapsto> 7]\<rparr>]\<rparr>
     2 6
   = Some \<lparr>VersionManager.base_row = 0, max_row = 6,
          info = [0 \<mapsto> (ChunkInsertInfo_from ((ChunkDeleteInfo 0)\<lparr>deleted := [1 \<mapsto> 6]\<rparr>))
                          \<lparr>inserted := [2 \<mapsto> 9, 3 \<mapsto> 9]\<rparr>]\<rparr>"
  by (simp add: RevertAppend_def RevertAppend_loop.simps as_index_t_def signed_divide_int_def
      signed_modulo_int_def)


lemma Append_range_insert_info:
  assumes "0 < SVS" "0 \<le> row_start" "row_start + int n < 2 ^ 63"
    and "Append SVS vm txn row_start n commit_id = Inr vm'"
    and "starts_in_range SVS b row_start (row_start + int n)"
  shows "kind vm' b = Some INSERT_INFO"
proof -
  let ?r = "nat row_start"
  from Append_info [OF assms(1-3), of vm txn commit_id] assms(4)
  have inf: "info vm' b =
                  (if ?r div SVS \<le> b \<and> b * SVS \<le> ?r + n
                   then Some (stamp_rows SVS ?r n commit_id b (insert_info_of SVS b (info vm b)))
                   else info vm b)"
    by auto
  have "row_start \<le> int (b * SVS)" "int (b * SVS) \<le> row_start + int n"
    using assms(5) by (simp_all add: starts_in_range_def)
  then have lo: "?r \<le> b * SVS" and hi: "b * SVS \<le> ?r + n"
    using assms(2) by linarith+
  have "?r div SVS \<le> b * SVS div SVS" using lo by (rule div_le_mono)
  then have "?r div SVS \<le> b" using assms(1) by simp
  then show ?thesis using hi inf by (simp add: kind_def stamp_rows_def insert_info_of_type)
qed

lemma allowed_step_insert_info:
  "allowed_step (Some INSERT_INFO) after \<Longrightarrow> after = Some INSERT_INFO"
  by (auto simp: allowed_step_def)

lemma perform_allowed_step:
  assumes "perform SVS operation vm = Inr vm'"
  shows "allowed_step (kind vm b) (kind vm' b)"
proof (cases operation)
  case (Append_op txn row_start n commit_id)
  then have "Append SVS vm txn row_start n commit_id = Inr vm'" using assms by simp
  then have "append_step (info vm b) (info vm' b)" by (rule Append_append_step)
  then show ?thesis by (rule append_step_allowed)
next
  case (Delete_op mem txn row_ids)
  then obtain txn' where "VersionManager_Delete SVS mem vm txn row_ids = Inr (vm', txn')"
    using assms by (auto split: sum.splits)
  then have "delete_step (kind vm b) (kind vm' b)" by (rule VersionManager_Delete_delete_step)
  then show ?thesis by (rule delete_step_allowed)
qed

lemma perform_all_keeps_insert_info:
  "perform_all SVS operations vm = Inr vm' \<Longrightarrow> kind vm b = Some INSERT_INFO \<Longrightarrow>
   kind vm' b = Some INSERT_INFO"
proof (induction operations arbitrary: vm)
  case Nil
  then show ?case by simp
next
  case (Cons operation operations)
  then obtain vm1 where p: "perform SVS operation vm = Inr vm1"
    and rest: "perform_all SVS operations vm1 = Inr vm'"
    by (auto split: sum.splits)
  have "kind vm1 b = Some INSERT_INFO"
    using perform_allowed_step [OF p, of b] Cons.prems(2) by (simp add: allowed_step_insert_info)
  with rest show ?case by (rule Cons.IH)
qed

lemma RevertAppend_of_appended_range:
  assumes "0 < SVS" "0 \<le> first_row" "first_row + int n < 2 ^ 63"
    and "first_row \<le> row_start" "row_start \<le> first_row + int n"
    and "0 \<le> row_end" "row_end \<le> first_row + int n"
    and a: "Append SVS vm0 txn0 first_row n commit_id = Inr vm1"
    and p: "perform_all SVS operations vm1 = Inr vm2"
    and r: "RevertAppend SVS vm2 row_start row_end = Some vmR"
    and ne: "info vmR b \<noteq> info vm2 b"
  shows "kind vm2 b = Some INSERT_INFO \<and> kind vmR b = None"
proof -
  have d: "0 \<le> row_start" "row_start < 2 ^ 63" "row_end < 2 ^ 63"
    using assms(2-7) by linarith+
  from RevertAppend_info [OF assms(1) d(1,2) assms(6) d(3), of vm2] r
  have inf: "info vmR b = (if starts_in_range SVS b row_start row_end then None else info vm2 b)"
    by auto
  then have s: "starts_in_range SVS b row_start row_end" using ne by (auto split: if_splits)
  then have "starts_in_range SVS b first_row (first_row + int n)"
    using assms(4,7) by (simp add: starts_in_range_def)
  from Append_range_insert_info [OF assms(1-3) a this]
  have "kind vm1 b = Some INSERT_INFO" .
  with p have "kind vm2 b = Some INSERT_INFO" by (rule perform_all_keeps_insert_info)
  moreover have "kind vmR b = None" using inf s by (simp add: kind_def)
  ultimately show ?thesis ..
qed

text \<open>
  C7. For every block: a returning \<open>Append\<close> leaves the kind of the entry as it was or makes
  it an insert-info (created where the entry was absent, or promoted from a delete-info),
  and an entry that existed keeps its deletions; a returning \<open>Delete\<close> leaves the kind as
  it was or creates a delete-info where the entry was absent; a returning \<open>RevertAppend\<close>
  leaves the entry as it was or erases it. So the kind changes only from absent to
  insert-info, from absent to delete-info and from delete-info to insert-info, never from
  insert-info to delete-info, and an entry becomes absent only in \<open>RevertAppend\<close>. No
  delete-info is removed without promotion: \<open>Append\<close> and \<open>Delete\<close> keep or promote it,
  and \<open>RevertAppend\<close> reverts rows that were appended; when the rows \<open>first_row\<close> to
  \<open>first_row + n - 1\<close> have been appended, whatever calls of \<open>Append\<close> and \<open>Delete\<close> have
  returned since, every entry that \<open>RevertAppend\<close> on a range inside
  \<open>[first_row, first_row + n]\<close> removes is an insert-info.
\<close>

theorem entry_state_machine:
  "(Append SVS vm txn row_start n commit_id = Inr vmA \<longrightarrow>
      allowed_step (kind vm b) (kind vmA b) \<and> append_step (info vm b) (info vmA b))
   \<and> (VersionManager_Delete SVS mem vm txn row_ids = Inr (vmD, txn') \<longrightarrow>
      allowed_step (kind vm b) (kind vmD b) \<and> delete_step (kind vm b) (kind vmD b))
   \<and> (RevertAppend SVS vm row_start row_end = Some vmR \<longrightarrow>
      info vmR b = info vm b \<or> info vmR b = None)
   \<and> (0 < SVS \<and> 0 \<le> first_row \<and> first_row + int n < 2 ^ 63
      \<and> first_row \<le> row_start \<and> row_start \<le> first_row + int n
      \<and> 0 \<le> row_end \<and> row_end \<le> first_row + int n
      \<and> Append SVS vm0 txn0 first_row n commit_id = Inr vm1
      \<and> perform_all SVS operations vm1 = Inr vm2
      \<and> RevertAppend SVS vm2 row_start row_end = Some vmR2
      \<and> info vmR2 b \<noteq> info vm2 b \<longrightarrow>
      kind vm2 b = Some INSERT_INFO \<and> kind vmR2 b = None)"
proof (intro conjI impI)
  assume a: "Append SVS vm txn row_start n commit_id = Inr vmA"
  then show "append_step (info vm b) (info vmA b)" by (rule Append_append_step)
  then show "allowed_step (kind vm b) (kind vmA b)" by (rule append_step_allowed)
next
  assume d: "VersionManager_Delete SVS mem vm txn row_ids = Inr (vmD, txn')"
  then show "delete_step (kind vm b) (kind vmD b)" by (rule VersionManager_Delete_delete_step)
  then show "allowed_step (kind vm b) (kind vmD b)" by (rule delete_step_allowed)
next
  assume "RevertAppend SVS vm row_start row_end = Some vmR"
  then show "info vmR b = info vm b \<or> info vmR b = None" by (rule RevertAppend_only_erases)
next
  assume h: "0 < SVS \<and> 0 \<le> first_row \<and> first_row + int n < 2 ^ 63
      \<and> first_row \<le> row_start \<and> row_start \<le> first_row + int n
      \<and> 0 \<le> row_end \<and> row_end \<le> first_row + int n
      \<and> Append SVS vm0 txn0 first_row n commit_id = Inr vm1
      \<and> perform_all SVS operations vm1 = Inr vm2
      \<and> RevertAppend SVS vm2 row_start row_end = Some vmR2
      \<and> info vmR2 b \<noteq> info vm2 b"
  then have r: "kind vm2 b = Some INSERT_INFO \<and> kind vmR2 b = None"
    by (intro RevertAppend_of_appended_range [of SVS first_row n row_start row_end vm0 txn0
          commit_id vm1 operations vm2 vmR2 b]) simp_all
  from r show "kind vm2 b = Some INSERT_INFO" ..
  from r show "kind vmR2 b = None" ..
qed


theorem entry_state_machine_witness:
  "allowed_step
     (kind \<lparr>VersionManager.base_row = 0, max_row = 2,
        info = [0 \<mapsto> (ChunkDeleteInfo 0)\<lparr>deleted := [1 \<mapsto> 6]\<rparr>]\<rparr> 0)
     (kind \<lparr>VersionManager.base_row = 0, max_row = 6,
        info = [0 \<mapsto> (ChunkInsertInfo_from ((ChunkDeleteInfo 0)\<lparr>deleted := [1 \<mapsto> 6]\<rparr>))
                        \<lparr>inserted := [2 \<mapsto> 9, 3 \<mapsto> 9]\<rparr>,
                1 \<mapsto> (ChunkInsertInfo 4)\<lparr>inserted := [0 \<mapsto> 9, 1 \<mapsto> 9]\<rparr>]\<rparr> 0)
   \<and> allowed_step
     (kind \<lparr>VersionManager.base_row = 0, max_row = 3000, info = Map.empty\<rparr> 1)
     (kind \<lparr>VersionManager.base_row = 0, max_row = 3000,
        info = [1 \<mapsto> (ChunkDeleteInfo 1024)\<lparr>deleted := [6 \<mapsto> 7]\<rparr>]\<rparr> 1)
   \<and> (info \<lparr>VersionManager.base_row = 0, max_row = 6,
        info = [0 \<mapsto> (ChunkInsertInfo_from ((ChunkDeleteInfo 0)\<lparr>deleted := [1 \<mapsto> 6]\<rparr>))
                        \<lparr>inserted := [2 \<mapsto> 9, 3 \<mapsto> 9]\<rparr>]\<rparr> 1
        = info \<lparr>VersionManager.base_row = 0, max_row = 6,
        info = [0 \<mapsto> (ChunkInsertInfo_from ((ChunkDeleteInfo 0)\<lparr>deleted := [1 \<mapsto> 6]\<rparr>))
                        \<lparr>inserted := [2 \<mapsto> 9, 3 \<mapsto> 9]\<rparr>,
                1 \<mapsto> (ChunkInsertInfo 4)\<lparr>inserted := [0 \<mapsto> 9, 1 \<mapsto> 9],
                                             deleted := [0 \<mapsto> 7]\<rparr>]\<rparr> 1
      \<or> info \<lparr>VersionManager.base_row = 0, max_row = 6,
        info = [0 \<mapsto> (ChunkInsertInfo_from ((ChunkDeleteInfo 0)\<lparr>deleted := [1 \<mapsto> 6]\<rparr>))
                        \<lparr>inserted := [2 \<mapsto> 9, 3 \<mapsto> 9]\<rparr>]\<rparr> 1 = None)
   \<and> kind \<lparr>VersionManager.base_row = 0, max_row = 6,
        info = [0 \<mapsto> (ChunkInsertInfo_from ((ChunkDeleteInfo 0)\<lparr>deleted := [1 \<mapsto> 6]\<rparr>))
                        \<lparr>inserted := [2 \<mapsto> 9, 3 \<mapsto> 9]\<rparr>,
                1 \<mapsto> (ChunkInsertInfo 4)\<lparr>inserted := [0 \<mapsto> 9, 1 \<mapsto> 9],
                                             deleted := [0 \<mapsto> 7]\<rparr>]\<rparr> 1 = Some INSERT_INFO
   \<and> kind \<lparr>VersionManager.base_row = 0, max_row = 6,
        info = [0 \<mapsto> (ChunkInsertInfo_from ((ChunkDeleteInfo 0)\<lparr>deleted := [1 \<mapsto> 6]\<rparr>))
                        \<lparr>inserted := [2 \<mapsto> 9, 3 \<mapsto> 9]\<rparr>]\<rparr> 1 = None"
proof -
  let ?vm0 = "\<lparr>VersionManager.base_row = 0, max_row = 2,
        info = [0 \<mapsto> (ChunkDeleteInfo 0)\<lparr>deleted := [1 \<mapsto> 6]\<rparr>]\<rparr>"
  let ?vm1 = "\<lparr>VersionManager.base_row = 0, max_row = 6,
        info = [0 \<mapsto> (ChunkInsertInfo_from ((ChunkDeleteInfo 0)\<lparr>deleted := [1 \<mapsto> 6]\<rparr>))
                        \<lparr>inserted := [2 \<mapsto> 9, 3 \<mapsto> 9]\<rparr>,
                1 \<mapsto> (ChunkInsertInfo 4)\<lparr>inserted := [0 \<mapsto> 9, 1 \<mapsto> 9]\<rparr>]\<rparr>"
  let ?vm2 = "\<lparr>VersionManager.base_row = 0, max_row = 6,
        info = [0 \<mapsto> (ChunkInsertInfo_from ((ChunkDeleteInfo 0)\<lparr>deleted := [1 \<mapsto> 6]\<rparr>))
                        \<lparr>inserted := [2 \<mapsto> 9, 3 \<mapsto> 9]\<rparr>,
                1 \<mapsto> (ChunkInsertInfo 4)\<lparr>inserted := [0 \<mapsto> 9, 1 \<mapsto> 9],
                                             deleted := [0 \<mapsto> 7]\<rparr>]\<rparr>"
  let ?vmR = "\<lparr>VersionManager.base_row = 0, max_row = 6,
        info = [0 \<mapsto> (ChunkInsertInfo_from ((ChunkDeleteInfo 0)\<lparr>deleted := [1 \<mapsto> 6]\<rparr>))
                        \<lparr>inserted := [2 \<mapsto> 9, 3 \<mapsto> 9]\<rparr>]\<rparr>"
  let ?t = "\<lparr>transaction_id = 3, undo_buffer = []\<rparr>"
  let ?ops = "[Delete_op \<lparr>data_mem = (\<lambda>a i. 4), sel_mem = (\<lambda>a i. 0)\<rparr>
        \<lparr>transaction_id = 7, undo_buffer = []\<rparr>
        \<lparr>Vector.type = OTHER_TYPE 0, count = 1, data = 0, owned_data = None,
         sel_vector = None, nullmask = (\<lambda>i. False)\<rparr>]"
  have a: "Append 4 ?vm0 ?t 2 4 9 = Inr ?vm1" by (rule Append_example)
  have p: "perform_all 4 ?ops ?vm1 = Inr ?vm2" by (rule history_example)
  have r: "RevertAppend 4 ?vm2 2 6 = Some ?vmR" by (rule RevertAppend_example)
  have ne: "info ?vmR 1 \<noteq> info ?vm2 1" by simp
  have h: "0 < (4::nat) \<and> (0::int) \<le> 2 \<and> (2::int) + int 4 < 2 ^ 63
      \<and> (2::int) \<le> 2 \<and> (2::int) \<le> 2 + int 4
      \<and> (0::int) \<le> 6 \<and> (6::int) \<le> 2 + int 4
      \<and> Append 4 ?vm0 ?t 2 4 9 = Inr ?vm1
      \<and> perform_all 4 ?ops ?vm1 = Inr ?vm2
      \<and> RevertAppend 4 ?vm2 2 6 = Some ?vmR
      \<and> info ?vmR 1 \<noteq> info ?vm2 1"
    using a p r ne by simp
  have 1: "allowed_step (kind ?vm0 0) (kind ?vm1 0)"
    using entry_state_machine [THEN conjunct1, rule_format, OF a, of 0]
    by (rule conjunct1)
  have 2: "allowed_step (kind \<lparr>VersionManager.base_row = 0, max_row = 3000, info = Map.empty\<rparr> 1) (kind \<lparr>VersionManager.base_row = 0, max_row = 3000,
        info = [1 \<mapsto> (ChunkDeleteInfo 1024)\<lparr>deleted := [6 \<mapsto> 7]\<rparr>]\<rparr> 1)"
    using entry_state_machine [THEN conjunct2, THEN conjunct1, rule_format, OF Delete_example, of 1]
    by (rule conjunct1)
  have 3: "info ?vmR 1 = info ?vm2 1 \<or> info ?vmR 1 = None"
    using entry_state_machine [THEN conjunct2, THEN conjunct2, THEN conjunct1, rule_format,
        OF r, of 1] .
  have 4: "kind ?vm2 1 = Some INSERT_INFO \<and> kind ?vmR 1 = None"
    using entry_state_machine [THEN conjunct2, THEN conjunct2, THEN conjunct2, THEN mp, OF h] .
  from 1 2 3 4 show ?thesis by blast
qed

section \<open>Locking of the readers\<close>

lemma GetSelVector_takes_shared_lock:
  "locked_before_find False (GetSelVector_accesses index)"
  by (simp add: GetSelVector_accesses_def)

text \<open>
  C9. \<open>GetSelVector\<close> takes the shared lock before it looks the block up; \<open>Fetch\<close> looks
  the block up without having taken any lock.
\<close>

theorem Fetch_takes_no_lock:
  "\<not> locked_before_find False (Fetch_accesses SVS vm row0)"
  by (simp add: Fetch_accesses_def)

section \<open>ExpressionExecutor: reconciling a result with the active chunk\<close>

lemma sel_index_data_mem [simp]:
  "sel_index (m\<lparr>data_mem := f\<rparr>) sel k = sel_index m sel k"
  by (simp add: sel_index_def split: option.splits)

lemma fill_fold:
  "fold (\<lambda>k s. fill_loop d x (sel_index (fst s) sel k) k s) ks (mem, ())
   = (mem\<lparr>data_mem := (data_mem mem)(d := (\<lambda>i. if i \<in> sel_index mem sel ` set ks then x
                                                      else data_mem mem d i))\<rparr>, ())"
proof (induction ks rule: rev_induct)
  case Nil
  then show ?case by simp
next
  case (snoc k ks)
  show ?case
    unfolding fold_append comp_def snoc
    by (simp add: fill_loop_def fun_eq_iff)
qed

lemma Set_broadcasts:
  assumes "VectorOperations_Set mem r v = (mem', r')"
  shows "Vector.count r' = Vector.count r" "Vector.sel_vector r' = Vector.sel_vector r"
    "data r' = data r" "Vector.type r' = Vector.type r" "owned_data r' = owned_data r"
    "sel_mem mem' = sel_mem mem"
    "\<forall>k<Vector.count r. GetValue mem' r' k = Inr v"
proof -
  show "Vector.count r' = Vector.count r" "Vector.sel_vector r' = Vector.sel_vector r"
    "data r' = data r" "Vector.type r' = Vector.type r" "owned_data r' = owned_data r"
    using assms by (auto simp: VectorOperations_Set_def split: Value.splits)
  show sm: "sel_mem mem' = sel_mem mem"
    using assms
    by (auto simp: VectorOperations_Set_def VectorOperations_Exec_def fill_fold split: Value.splits)
  show "\<forall>k<Vector.count r. GetValue mem' r' k = Inr v"
  proof (cases v)
    case Null_Value
    then show ?thesis using assms by (auto simp: VectorOperations_Set_def GetValue_def)
  next
    case (Value x)
    have m: "mem' = mem\<lparr>data_mem := (data_mem mem)(data r :=
                 (\<lambda>i. if i \<in> sel_index mem (Vector.sel_vector r) ` set [0..<Vector.count r]
                       then x else data_mem mem (data r) i))\<rparr>"
      and r: "r' = r\<lparr>nullmask := (\<lambda>_. False)\<rparr>"
      using assms Value
      by (simp_all add: VectorOperations_Set_def VectorOperations_Exec_def fill_fold)
    show ?thesis
      unfolding m r using Value by (simp add: GetValue_def)
  qed
qed


lemma GetValue_owned_data: "GetValue mem (r\<lparr>owned_data := x\<rparr>) k = GetValue mem r k"
  by (simp add: GetValue_def Let_def)

lemma GetValue_constant:
  "IsConstant r \<Longrightarrow>
   GetValue mem r 0 = Inr (if nullmask r 0 then Null_Value else Value (data_mem mem (data r) 0))"
  by (simp add: IsConstant_def GetValue_def sel_index_def)

lemma ExecuteExpression_idx_constant:
  assumes "chunk ex = Some c" "expr_idx < length (expressions ex)"
    and "Vector.type result = return_type (expressions ex ! expr_idx)"
    and "Execute h vok (chunk ex) mem (expressions ex ! expr_idx) (result\<lparr>owned_data := None\<rparr>)
           = Inr (mem1, r1)"
    and "IsConstant r1" "GetValue mem1 r1 0 = Inr cv"
    and "VectorOperations_Set mem1
           (r1\<lparr>data := data result, Vector.count := DataChunk_size c,
               Vector.sel_vector := DataChunk.sel_vector c\<rparr>) cv = (mem2, r2)"
  shows "ExecuteExpression_idx h vok ex mem expr_idx result
           = Inr (mem2, r2\<lparr>owned_data := owned_data result\<rparr>)"
proof -
  have "Vector.sel_vector r2 = DataChunk.sel_vector c" "data r2 = data result"
    using Set_broadcasts(2,3) [OF assms(7)] by simp_all
  then show ?thesis
    using assms by (simp add: ExecuteExpression_idx_def Let_def)
qed

text \<open>
  C1. Whenever the executor has an active chunk: if the routine of the expression gives a
  constant vector, \<open>ExecuteExpression\<close> returns a vector over the caller's buffer whose
  count is the chunk's size, whose selection vector is the chunk's, and whose every logical
  row reads the constant's value; if the routine gives a vector that is not constant and
  whose count differs from the chunk's size, the call fails with the length-mismatch
  exception; and whenever the call returns, the selection vector of the result is the same
  instance (the same address, or both null) as the chunk's.
\<close>

theorem ExecuteExpression_reconciles:
  assumes "chunk ex = Some c"
  shows "(\<forall>mem1 r1.
            expr_idx < length (expressions ex)
            \<and> Vector.type result = return_type (expressions ex ! expr_idx)
            \<and> Execute h Vector_Verify (chunk ex) mem (expressions ex ! expr_idx)
                  (result\<lparr>owned_data := None\<rparr>) = Inr (mem1, r1)
            \<longrightarrow>
              (IsConstant r1 \<longrightarrow>
                 (\<exists>mem2 r2 cv.
                    GetValue mem1 r1 0 = Inr cv
                    \<and> ExecuteExpression_idx h Vector_Verify ex mem expr_idx result = Inr (mem2, r2)
                    \<and> Vector.count r2 = DataChunk_size c
                    \<and> Vector.sel_vector r2 = DataChunk.sel_vector c
                    \<and> data r2 = data result
                    \<and> (\<forall>k<DataChunk_size c. GetValue mem2 r2 k = Inr cv)))
              \<and> (\<not> IsConstant r1 \<and> Vector.count r1 \<noteq> DataChunk_size c \<longrightarrow>
                   ExecuteExpression_idx h Vector_Verify ex mem expr_idx result
                     = Inl (Exception ''Computed vector length does not match expected length!'')))
         \<and> (\<forall>mem2 r2.
               ExecuteExpression_idx h Vector_Verify ex mem expr_idx result = Inr (mem2, r2)
               \<longrightarrow> Vector.sel_vector r2 = DataChunk.sel_vector c)"
proof (intro conjI allI impI)
  fix mem1 r1
  assume pre: "expr_idx < length (expressions ex)
            \<and> Vector.type result = return_type (expressions ex ! expr_idx)
            \<and> Execute h Vector_Verify (chunk ex) mem (expressions ex ! expr_idx)
                  (result\<lparr>owned_data := None\<rparr>) = Inr (mem1, r1)"
  {
    assume const: "IsConstant r1"
    let ?cv = "if nullmask r1 0 then Null_Value else Value (data_mem mem1 (data r1) 0)"
    let ?arg = "r1\<lparr>data := data result, Vector.count := DataChunk_size c,
               Vector.sel_vector := DataChunk.sel_vector c\<rparr>"
    have gv: "GetValue mem1 r1 0 = Inr ?cv" using const by (rule GetValue_constant)
    obtain mem2 r2 where set: "VectorOperations_Set mem1 ?arg ?cv = (mem2, r2)"
      by (cases "VectorOperations_Set mem1 ?arg ?cv") auto
    have run: "ExecuteExpression_idx h Vector_Verify ex mem expr_idx result
           = Inr (mem2, r2\<lparr>owned_data := owned_data result\<rparr>)"
      using assms pre const gv set by (intro ExecuteExpression_idx_constant) auto
    have b: "Vector.count r2 = DataChunk_size c" "Vector.sel_vector r2 = DataChunk.sel_vector c"
      "data r2 = data result" "\<forall>k<DataChunk_size c. GetValue mem2 r2 k = Inr ?cv"
      using Set_broadcasts(1,2,3,7) [OF set] by simp_all
    have "\<forall>k<DataChunk_size c. GetValue mem2 (r2\<lparr>owned_data := owned_data result\<rparr>) k = Inr ?cv"
      using b(4) by (simp only: GetValue_owned_data)
    then show "\<exists>mem2 r2 cv.
                    GetValue mem1 r1 0 = Inr cv
                    \<and> ExecuteExpression_idx h Vector_Verify ex mem expr_idx result = Inr (mem2, r2)
                    \<and> Vector.count r2 = DataChunk_size c
                    \<and> Vector.sel_vector r2 = DataChunk.sel_vector c
                    \<and> data r2 = data result
                    \<and> (\<forall>k<DataChunk_size c. GetValue mem2 r2 k = Inr cv)"
      using gv run b(1,2,3)
      by (intro exI [of _ mem2] exI [of _ "r2\<lparr>owned_data := owned_data result\<rparr>"] exI [of _ ?cv])
         simp
  }
  {
    assume "\<not> IsConstant r1 \<and> Vector.count r1 \<noteq> DataChunk_size c"
    then show "ExecuteExpression_idx h Vector_Verify ex mem expr_idx result
                 = Inl (Exception ''Computed vector length does not match expected length!'')"
      using assms pre by (simp add: ExecuteExpression_idx_def Let_def)
  }
next
  fix mem2 r2
  assume run: "ExecuteExpression_idx h Vector_Verify ex mem expr_idx result = Inr (mem2, r2)"
  then obtain mem3 r3 where
    "Vector.sel_vector r3 = DataChunk.sel_vector c"
    "r2 = (if data r3 = data result then r3\<lparr>owned_data := owned_data result\<rparr> else r3)"
    using assms
    by (auto simp: ExecuteExpression_idx_def Let_def split: if_splits sum.splits prod.splits)
  then show "Vector.sel_vector r2 = DataChunk.sel_vector c" by (simp split: if_splits)
qed

theorem ExecuteExpression_reconciles_witness:
  "map_sum id (\<lambda>(m, r). (Vector.count r, Vector.sel_vector r, data r,
                           GetValue m r 0, GetValue m r 1, GetValue m r 2))
     (ExecuteExpression_idx
        (\<lambda>e ch m r. Inr (m\<lparr>data_mem := (data_mem m)(data r := (data_mem m (data r))(0 := 42))\<rparr>,
                          r\<lparr>Vector.count := 1, Vector.sel_vector := None\<rparr>))
        (\<lambda>m v. True)
        \<lparr>expressions = [\<lparr>expression_class = BOUND_CONSTANT, return_type = OTHER_TYPE 0,
                          IsFoldable = True\<rparr>],
         chunk = Some \<lparr>row_count = 3, sel_vector = Some 5\<rparr>\<rparr>
        \<lparr>data_mem = (\<lambda>a i. 0), sel_mem = (\<lambda>a k. 2 * k)\<rparr> 0 (Vector_owning (OTHER_TYPE 0) 9))
   = Inr (3, Some 5, 9, Inr (Value 42), Inr (Value 42), Inr (Value 42))
   \<and> ExecuteExpression_idx
        (\<lambda>e ch m r. Inr (m, r\<lparr>Vector.count := 2\<rparr>))
        (\<lambda>m v. True)
        \<lparr>expressions = [\<lparr>expression_class = BOUND_REF, return_type = OTHER_TYPE 0,
                          IsFoldable = False\<rparr>],
         chunk = Some \<lparr>row_count = 3, sel_vector = Some 5\<rparr>\<rparr>
        \<lparr>data_mem = (\<lambda>a i. 0), sel_mem = (\<lambda>a k. 2 * k)\<rparr> 0 (Vector_owning (OTHER_TYPE 0) 9)
      = Inl (Exception ''Computed vector length does not match expected length!'')"
proof
  let ?h = "\<lambda>(e::Expression) (ch::DataChunk option) m r.
              Inr (m\<lparr>data_mem := (data_mem m)(data r := (data_mem m (data r))(0 := 42))\<rparr>,
                   r\<lparr>Vector.count := 1, Vector.sel_vector := None\<rparr>) :: error + (Memory \<times> Vector)"
  let ?vok = "\<lambda>(m::Memory) (v::Vector). True"
  let ?c = "\<lparr>row_count = 3, sel_vector = Some 5\<rparr>"
  let ?ex = "\<lparr>expressions = [\<lparr>expression_class = BOUND_CONSTANT, return_type = OTHER_TYPE 0,
                          IsFoldable = True\<rparr>], chunk = Some ?c\<rparr>"
  let ?mem = "\<lparr>data_mem = (\<lambda>a i. 0), sel_mem = (\<lambda>a k. 2 * k)\<rparr>"
  let ?res = "Vector_owning (OTHER_TYPE 0) 9"
  let ?mem1 = "?mem\<lparr>data_mem := (data_mem ?mem)(9 := (data_mem ?mem 9)(0 := 42))\<rparr>"
  let ?r1 = "(?res\<lparr>owned_data := None\<rparr>)\<lparr>Vector.count := 1, Vector.sel_vector := None\<rparr>"
  have ch: "chunk ?ex = Some ?c" by simp
  have pre: "0 < length (expressions ?ex)
            \<and> Vector.type ?res = return_type (expressions ?ex ! 0)
            \<and> Execute ?h ?vok (chunk ?ex) ?mem (expressions ?ex ! 0)
                  (?res\<lparr>owned_data := None\<rparr>) = Inr (?mem1, ?r1)"
    by (simp add: Execute_def Verify_def Vector_owning_def)
  have const: "IsConstant ?r1" by (simp add: IsConstant_def)
  from ExecuteExpression_reconciles [OF ch, THEN conjunct1, rule_format, OF pre, THEN conjunct1,
      rule_format, OF const]
  obtain mem2 r2 cv where gv: "GetValue ?mem1 ?r1 0 = Inr cv"
    and run: "ExecuteExpression_idx ?h ?vok ?ex ?mem 0 ?res = Inr (mem2, r2)"
    and b: "Vector.count r2 = DataChunk_size ?c" "Vector.sel_vector r2 = DataChunk.sel_vector ?c"
      "data r2 = data ?res"
    and all: "\<forall>k<DataChunk_size ?c. GetValue mem2 r2 k = Inr cv"
    by blast
  have cv: "cv = Value 42" using gv by (simp add: GetValue_def sel_index_def Vector_owning_def)
  have "GetValue mem2 r2 0 = Inr (Value 42)" "GetValue mem2 r2 1 = Inr (Value 42)"
    "GetValue mem2 r2 2 = Inr (Value 42)"
    using all cv by (simp_all add: DataChunk_size_def)
  then show "map_sum id (\<lambda>(m, r). (Vector.count r, Vector.sel_vector r, data r,
                           GetValue m r 0, GetValue m r 1, GetValue m r 2))
     (ExecuteExpression_idx ?h ?vok ?ex ?mem 0 ?res)
   = Inr (3, Some 5, 9, Inr (Value 42), Inr (Value 42), Inr (Value 42))"
    unfolding run using b by (simp add: DataChunk_size_def Vector_owning_def)
next
  let ?h = "\<lambda>(e::Expression) (ch::DataChunk option) (m::Memory) r.
              Inr (m, r\<lparr>Vector.count := 2\<rparr>) :: error + (Memory \<times> Vector)"
  let ?vok = "\<lambda>(m::Memory) (v::Vector). True"
  let ?c = "\<lparr>row_count = 3, sel_vector = Some 5\<rparr>"
  let ?ex = "\<lparr>expressions = [\<lparr>expression_class = BOUND_REF, return_type = OTHER_TYPE 0,
                          IsFoldable = False\<rparr>], chunk = Some ?c\<rparr>"
  let ?mem = "\<lparr>data_mem = (\<lambda>a i. 0), sel_mem = (\<lambda>a k. 2 * k)\<rparr>"
  let ?res = "Vector_owning (OTHER_TYPE 0) 9"
  let ?r1 = "(?res\<lparr>owned_data := None\<rparr>)\<lparr>Vector.count := 2\<rparr>"
  have ch: "chunk ?ex = Some ?c" by simp
  have pre: "0 < length (expressions ?ex)
            \<and> Vector.type ?res = return_type (expressions ?ex ! 0)
            \<and> Execute ?h ?vok (chunk ?ex) ?mem (expressions ?ex ! 0)
                  (?res\<lparr>owned_data := None\<rparr>) = Inr (?mem, ?r1)"
    by (simp add: Execute_def Verify_def Vector_owning_def)
  have nc: "\<not> IsConstant ?r1 \<and> Vector.count ?r1 \<noteq> DataChunk_size ?c"
    by (simp add: IsConstant_def DataChunk_size_def)
  from ExecuteExpression_reconciles [OF ch, THEN conjunct1, rule_format, OF pre, THEN conjunct2,
      rule_format, OF nc]
  show "ExecuteExpression_idx ?h ?vok ?ex ?mem 0 ?res
      = Inl (Exception ''Computed vector length does not match expected length!'')" .
qed

section \<open>ExpressionExecutor: selection\<close>

lemma DefaultSelect_fold:
  fixes v :: Vector and mem1 :: Memory and out :: addr and sel :: "addr option"
  defines "P \<equiv> \<lambda>i. data_mem mem1 (data v) i \<noteq> 0 \<and> \<not> nullmask v i"
  shows "\<exists>m. fold (\<lambda>k s. DefaultSelect_callback v out (sel_index (fst s) sel k) k s) [0..<n] (mem1, 0)
              = (m, length (filter P (map (sel_index mem1 sel) [0..<n])))
           \<and> data_mem m = data_mem mem1
           \<and> (\<forall>j<length (filter P (map (sel_index mem1 sel) [0..<n])).
                 sel_mem m out j = filter P (map (sel_index mem1 sel) [0..<n]) ! j)
           \<and> (\<forall>a j. a \<noteq> out \<or> length (filter P (map (sel_index mem1 sel) [0..<n])) \<le> j \<longrightarrow>
                 sel_mem m a j = sel_mem mem1 a j)"
proof (induction n)
  case 0
  then show ?case by simp
next
  case (Suc n)
  let ?tp = "filter P (map (sel_index mem1 sel) [0..<n])"
  let ?f = "\<lambda>k s. DefaultSelect_callback v out (sel_index (fst s) sel k) k s"
  from Suc obtain m where
    run: "fold ?f [0..<n] (mem1, 0) = (m, length ?tp)"
    and dm: "data_mem m = data_mem mem1"
    and wr: "\<forall>j<length ?tp. sel_mem m out j = ?tp ! j"
    and un: "\<forall>a j. a \<noteq> out \<or> length ?tp \<le> j \<longrightarrow> sel_mem m a j = sel_mem mem1 a j"
    by blast
  have le: "length ?tp \<le> n"
    using length_filter_le [of P "map (sel_index mem1 sel) [0..<n]"] by simp
  have idx: "sel_index m sel n = sel_index mem1 sel n"
    using un le by (auto simp: sel_index_def split: option.splits)
  let ?i = "sel_index mem1 sel n"
  have step: "fold ?f [0..<Suc n] (mem1, 0) = DefaultSelect_callback v out ?i n (m, length ?tp)"
    by (simp add: run idx)
  have tp': "filter P (map (sel_index mem1 sel) [0..<Suc n]) = ?tp @ (if P ?i then [?i] else [])"
    by simp
  show ?case
  proof (cases "P ?i")
    case True
    let ?m' = "m\<lparr>sel_mem := (sel_mem m)(out := (sel_mem m out)(length ?tp := ?i))\<rparr>"
    have cb: "DefaultSelect_callback v out ?i n (m, length ?tp) = (?m', length ?tp + 1)"
      using True dm by (simp add: DefaultSelect_callback_def P_def Let_def)
    have "fold ?f [0..<Suc n] (mem1, 0)
            = (?m', length (filter P (map (sel_index mem1 sel) [0..<Suc n])))"
      unfolding step cb tp' using True by simp
    moreover have "data_mem ?m' = data_mem mem1" using dm by simp
    moreover have "\<forall>j<length (filter P (map (sel_index mem1 sel) [0..<Suc n])).
                 sel_mem ?m' out j = filter P (map (sel_index mem1 sel) [0..<Suc n]) ! j"
      unfolding tp' using True wr by (auto simp: nth_append less_Suc_eq)
    moreover have "\<forall>a j. a \<noteq> out \<or> length (filter P (map (sel_index mem1 sel) [0..<Suc n])) \<le> j
                 \<longrightarrow> sel_mem ?m' a j = sel_mem mem1 a j"
      unfolding tp' using True un by auto
    ultimately show ?thesis by blast
  next
    case False
    have cb: "DefaultSelect_callback v out ?i n (m, length ?tp) = (m, length ?tp)"
      using False dm by (simp add: DefaultSelect_callback_def P_def Let_def)
    have "fold ?f [0..<Suc n] (mem1, 0)
            = (m, length (filter P (map (sel_index mem1 sel) [0..<Suc n])))"
      unfolding step cb tp' using False by simp
    moreover have "\<forall>j<length (filter P (map (sel_index mem1 sel) [0..<Suc n])).
                 sel_mem m out j = filter P (map (sel_index mem1 sel) [0..<Suc n]) ! j"
      unfolding tp' using False wr by simp
    moreover have "\<forall>a j. a \<noteq> out \<or> length (filter P (map (sel_index mem1 sel) [0..<Suc n])) \<le> j
                 \<longrightarrow> sel_mem m a j = sel_mem mem1 a j"
      unfolding tp' using False un by simp
    ultimately show ?thesis using dm by blast
  qed
qed

lemma sorted_positions_no_sel:
  assumes "Vector.sel_vector r = None"
  shows "sorted (positions mem r)"
proof -
  have "sel_index mem None = (\<lambda>k. k)" by (simp add: fun_eq_iff sel_index_def)
  then show ?thesis using assms by (simp add: positions_def)
qed

text \<open>
  C5, as amended. Let the evaluation of the expression into the temporary boolean vector
  give the vector \<open>r\<close>. If \<open>r\<close> is constant, true and not null, \<open>DefaultSelect\<close> returns the
  row count of the active chunk and writes nothing; if \<open>r\<close> is constant and false or null it
  returns 0 and writes nothing; otherwise it returns the number of positions of \<open>r\<close> that
  are true and not null and writes exactly these positions to the output, in the order in
  which the selection vector of \<open>r\<close> visits them (also when the output is the array of that
  selection vector). That order is ascending when the visited positions are ascending, in
  particular when \<open>r\<close> has no selection vector.
\<close>

theorem DefaultSelect_selects:
  assumes "Execute h Vector_Verify (chunk ex) mem expr (Vector_over BOOLEAN intermediate_bools)
             = Inr (mem1, r)"
  shows "(IsConstant r \<and> data_mem mem1 (data r) 0 \<noteq> 0 \<and> \<not> nullmask r 0 \<longrightarrow>
            (\<forall>c. chunk ex = Some c \<longrightarrow>
               DefaultSelect h Vector_Verify ex mem expr intermediate_bools out
                 = Inr (mem1, DataChunk_size c)))
       \<and> (IsConstant r \<and> (data_mem mem1 (data r) 0 = 0 \<or> nullmask r 0) \<longrightarrow>
            DefaultSelect h Vector_Verify ex mem expr intermediate_bools out = Inr (mem1, 0))
       \<and> (\<not> IsConstant r \<longrightarrow>
            (\<exists>mem2. DefaultSelect h Vector_Verify ex mem expr intermediate_bools out
                       = Inr (mem2, length (true_positions mem1 r))
               \<and> (\<forall>j<length (true_positions mem1 r). sel_mem mem2 out j = true_positions mem1 r ! j)
               \<and> data_mem mem2 = data_mem mem1
               \<and> (\<forall>a j. a \<noteq> out \<or> length (true_positions mem1 r) \<le> j \<longrightarrow>
                     sel_mem mem2 a j = sel_mem mem1 a j)))
       \<and> (sorted (positions mem1 r) \<longrightarrow> sorted (true_positions mem1 r))
       \<and> (Vector.sel_vector r = None \<longrightarrow> sorted (true_positions mem1 r))"
proof (intro conjI impI allI)
  fix c
  assume "IsConstant r \<and> data_mem mem1 (data r) 0 \<noteq> 0 \<and> \<not> nullmask r 0" "chunk ex = Some c"
  then show "DefaultSelect h Vector_Verify ex mem expr intermediate_bools out
               = Inr (mem1, DataChunk_size c)"
    using assms by (simp add: DefaultSelect_def)
next
  assume "IsConstant r \<and> (data_mem mem1 (data r) 0 = 0 \<or> nullmask r 0)"
  then show "DefaultSelect h Vector_Verify ex mem expr intermediate_bools out = Inr (mem1, 0)"
    using assms by (auto simp: DefaultSelect_def)
next
  assume nc: "\<not> IsConstant r"
  from DefaultSelect_fold [of r out "Vector.sel_vector r" "Vector.count r" mem1]
  obtain m where
    run: "fold (\<lambda>k s. DefaultSelect_callback r out (sel_index (fst s) (Vector.sel_vector r) k) k s)
            [0..<Vector.count r] (mem1, 0) = (m, length (true_positions mem1 r))"
    and rest: "data_mem m = data_mem mem1"
      "\<forall>j<length (true_positions mem1 r). sel_mem m out j = true_positions mem1 r ! j"
      "\<forall>a j. a \<noteq> out \<or> length (true_positions mem1 r) \<le> j \<longrightarrow> sel_mem m a j = sel_mem mem1 a j"
    unfolding true_positions_def positions_def by blast
  have "DefaultSelect h Vector_Verify ex mem expr intermediate_bools out
          = Inr (m, length (true_positions mem1 r))"
    using assms nc run by (simp add: DefaultSelect_def VectorOperations_Exec_def)
  then show "\<exists>mem2. DefaultSelect h Vector_Verify ex mem expr intermediate_bools out
                       = Inr (mem2, length (true_positions mem1 r))
               \<and> (\<forall>j<length (true_positions mem1 r). sel_mem mem2 out j = true_positions mem1 r ! j)
               \<and> data_mem mem2 = data_mem mem1
               \<and> (\<forall>a j. a \<noteq> out \<or> length (true_positions mem1 r) \<le> j \<longrightarrow>
                     sel_mem mem2 a j = sel_mem mem1 a j)"
    using rest by blast
next
  assume "sorted (positions mem1 r)"
  then show "sorted (true_positions mem1 r)"
    unfolding true_positions_def by (rule sorted_wrt_filter)
next
  assume "Vector.sel_vector r = None"
  then have "sorted (positions mem1 r)" by (rule sorted_positions_no_sel)
  then show "sorted (true_positions mem1 r)"
    unfolding true_positions_def by (rule sorted_wrt_filter)
qed

theorem DefaultSelect_selects_witness:
  "map_sum id (\<lambda>(m, n). (n, sel_mem m 5 0, sel_mem m 5 1))
     (DefaultSelect
        (\<lambda>e ch m r. Inr (m\<lparr>data_mem := (data_mem m)(data r := (\<lambda>i. if i = 2 then 0 else 1))\<rparr>,
                          r\<lparr>Vector.count := 3, Vector.sel_vector := Some 5\<rparr>))
        (\<lambda>m v. True)
        \<lparr>expressions = [\<lparr>expression_class = BOUND_FUNCTION, return_type = BOOLEAN,
                          IsFoldable = False\<rparr>],
         chunk = Some \<lparr>row_count = 3, sel_vector = Some 5\<rparr>\<rparr>
        \<lparr>data_mem = (\<lambda>a i. 0), sel_mem = (\<lambda>a k. 2 * k)\<rparr>
        \<lparr>expression_class = BOUND_FUNCTION, return_type = BOOLEAN, IsFoldable = False\<rparr> 8 5)
   = Inr (2, 0, 4)"
proof -
  let ?h = "\<lambda>(e::Expression) (ch::DataChunk option) m r.
              Inr (m\<lparr>data_mem := (data_mem m)(data r := (\<lambda>i. if i = 2 then 0 else 1))\<rparr>,
                   r\<lparr>Vector.count := 3, Vector.sel_vector := Some 5\<rparr>) :: error + (Memory \<times> Vector)"
  let ?vok = "\<lambda>(m::Memory) (v::Vector). True"
  let ?expr = "\<lparr>expression_class = BOUND_FUNCTION, return_type = BOOLEAN, IsFoldable = False\<rparr>"
  let ?ex = "\<lparr>expressions = [?expr], chunk = Some \<lparr>row_count = 3, sel_vector = Some 5\<rparr>\<rparr>"
  let ?mem = "\<lparr>data_mem = (\<lambda>a i. 0), sel_mem = (\<lambda>a k. 2 * k)\<rparr>"
  let ?mem1 = "?mem\<lparr>data_mem := (data_mem ?mem)(8 := (\<lambda>i. if i = 2 then 0 else 1))\<rparr>"
  let ?r = "(Vector_over BOOLEAN 8)\<lparr>Vector.count := 3, Vector.sel_vector := Some 5\<rparr>"
  have exec: "Execute ?h ?vok (chunk ?ex) ?mem ?expr (Vector_over BOOLEAN 8) = Inr (?mem1, ?r)"
    by (simp add: Execute_def Verify_def Vector_over_def)
  have nc: "\<not> IsConstant ?r" by (simp add: IsConstant_def)
  have tp: "true_positions ?mem1 ?r = [0, 4]"
    by (simp add: true_positions_def positions_def sel_index_def Vector_over_def upt_rec)
  from DefaultSelect_selects [OF exec, of 5, THEN conjunct2, THEN conjunct2, THEN conjunct1,
      rule_format, OF nc]
  obtain mem2 where run: "DefaultSelect ?h ?vok ?ex ?mem ?expr 8 5
                       = Inr (mem2, length (true_positions ?mem1 ?r))"
    and wr: "\<forall>j<length (true_positions ?mem1 ?r). sel_mem mem2 5 j = true_positions ?mem1 ?r ! j"
    by blast
  have "sel_mem mem2 5 0 = 0" "sel_mem mem2 5 1 = 4" using wr unfolding tp by simp_all
  then show ?thesis unfolding run tp by simp
qed

text \<open>
  C5 as stated fails in its last clause: on a batch of two rows whose selection vector
  holds the positions 3 and 1, both true, \<open>DefaultSelect\<close> writes 3 and then 1, which is
  not ascending position order.
\<close>

theorem DefaultSelect_not_ascending_counterexample:
  "map_sum id (\<lambda>(m, n). (n, sel_mem m 6 0, sel_mem m 6 1))
     (DefaultSelect
        (\<lambda>e ch m r. Inr (m\<lparr>data_mem := (data_mem m)(data r := (\<lambda>i. 1))\<rparr>,
                          r\<lparr>Vector.count := 2, Vector.sel_vector := Some 5\<rparr>))
        (\<lambda>m v. True)
        \<lparr>expressions = [\<lparr>expression_class = BOUND_FUNCTION, return_type = BOOLEAN,
                          IsFoldable = False\<rparr>],
         chunk = Some \<lparr>row_count = 2, sel_vector = Some 5\<rparr>\<rparr>
        \<lparr>data_mem = (\<lambda>a i. 0), sel_mem = (\<lambda>a k. 3 - 2 * k)\<rparr>
        \<lparr>expression_class = BOUND_FUNCTION, return_type = BOOLEAN, IsFoldable = False\<rparr> 8 6)
   = Inr (2, 3, 1)
   \<and> \<not> sorted [3 :: nat, 1]"
  by (simp add: DefaultSelect_def Execute_def Verify_def Vector_over_def IsConstant_def
      VectorOperations_Exec_def DefaultSelect_callback_def sel_index_def upt_rec Let_def)

lemma Select_default:
  assumes "return_type expr = BOOLEAN"
    and "expression_class expr \<noteq> BOUND_BETWEEN" "expression_class expr \<noteq> BOUND_COMPARISON"
      "expression_class expr \<noteq> BOUND_CONJUNCTION"
  shows "Select h Vector_Verify hs ex mem expr intermediate_bools out
           = DefaultSelect h Vector_Verify ex mem expr intermediate_bools out"
  using assms by (simp add: Select_def split: ExpressionClass.splits)

section \<open>ExpressionExecutor: scalar evaluation\<close>

lemma Execute_known_class:
  "Execute h Vector_Verify ch mem expr r = Inr x \<Longrightarrow> InitializeState expr = Inr ()"
  by (cases "expression_class expr") (simp_all add: Execute_def InitializeState_def)

text \<open>
  C8. For a foldable constant expression with value \<open>v\<close>, \<open>EvaluateScalar\<close> returns \<open>v\<close>,
  and executing the expression (as the only expression of an executor) over a batch of any
  number of rows returns a vector with the batch's row count whose every element reads
  \<open>v\<close>.
\<close>

theorem EvaluateScalar_agrees_with_batch:
  assumes "folds_to h Vector_Verify expr v"
    and "expressions ex = [expr]" "Vector.type result = return_type expr"
  shows "EvaluateScalar h Vector_Verify mem expr buf = Inr v
         \<and> (\<exists>mem2 r2. ExecuteExpression_chunk h Vector_Verify ex mem_b input result = Inr (mem2, r2)
               \<and> Vector.count r2 = DataChunk_size input
               \<and> (\<forall>k<DataChunk_size input. GetValue mem2 r2 k = Inr v))"
proof
  let ?res = "Vector_owning (return_type expr) buf"
  let ?ex0 = "\<lparr>expressions = [expr], chunk = None\<rparr>"
  have fo: "IsFoldable expr" using assms(1) by (simp add: folds_to_def)
  have "Vector.type (?res\<lparr>owned_data := None\<rparr>) = return_type expr" by (simp add: Vector_owning_def)
  then obtain mem' r' where
    exec: "Execute h Vector_Verify None mem expr (?res\<lparr>owned_data := None\<rparr>) = Inr (mem', r')"
    and const: "IsConstant r'" and gv: "GetValue mem' r' 0 = Inr v"
    using assms(1) unfolding folds_to_def by blast
  have init: "InitializeState expr = Inr ()" using exec by (rule Execute_known_class)
  have add: "AddExpression ExpressionExecutor_new expr = Inr ?ex0"
    by (simp add: AddExpression_def init ExpressionExecutor_new_def)
  have run: "ExecuteExpression_single h Vector_Verify ?ex0 mem ?res
               = Inr (mem', if data r' = data ?res then r'\<lparr>owned_data := owned_data ?res\<rparr> else r')"
    using exec by (simp add: ExecuteExpression_single_def ExecuteExpression_idx_def Let_def
        Vector_owning_def)
  have c1: "Vector.count r' = 1" using const by (simp add: IsConstant_def)
  show "EvaluateScalar h Vector_Verify mem expr buf = Inr v"
    unfolding EvaluateScalar_def add using fo run c1 gv
    by (simp add: GetValue_owned_data)
next
  let ?exb = "SetChunk ex (Some input)"
  have "Vector.type (result\<lparr>owned_data := None\<rparr>) = return_type expr" using assms(3) by simp
  then obtain mem1 r1 where
    exec: "Execute h Vector_Verify (Some input) mem_b expr (result\<lparr>owned_data := None\<rparr>)
             = Inr (mem1, r1)"
    and const: "IsConstant r1" and gv: "GetValue mem1 r1 0 = Inr v"
    using assms(1) unfolding folds_to_def by blast
  let ?arg = "r1\<lparr>data := data result, Vector.count := DataChunk_size input,
               Vector.sel_vector := DataChunk.sel_vector input\<rparr>"
  obtain mem2 r2 where set: "VectorOperations_Set mem1 ?arg v = (mem2, r2)"
    by (cases "VectorOperations_Set mem1 ?arg v") auto
  have "ExecuteExpression_idx h Vector_Verify ?exb mem_b 0 result
          = Inr (mem2, r2\<lparr>owned_data := owned_data result\<rparr>)"
  proof (rule ExecuteExpression_idx_constant [where c = input and cv = v])
    show "chunk ?exb = Some input" by (simp add: SetChunk_def)
    show "0 < length (expressions ?exb)" using assms(2) by (simp add: SetChunk_def)
    show "Vector.type result = return_type (expressions ?exb ! 0)"
      using assms(2,3) by (simp add: SetChunk_def)
    show "Execute h Vector_Verify (chunk ?exb) mem_b (expressions ?exb ! 0)
            (result\<lparr>owned_data := None\<rparr>) = Inr (mem1, r1)"
      using exec assms(2) by (simp add: SetChunk_def)
    show "IsConstant r1" by (rule const)
    show "GetValue mem1 r1 0 = Inr v" by (rule gv)
    show "VectorOperations_Set mem1 ?arg v = (mem2, r2)" by (rule set)
  qed
  then have run: "ExecuteExpression_chunk h Vector_Verify ex mem_b input result
          = Inr (mem2, r2\<lparr>owned_data := owned_data result\<rparr>)"
    using assms(2) by (simp add: ExecuteExpression_chunk_def ExecuteExpression_single_def SetChunk_def)
  have b: "Vector.count r2 = DataChunk_size input"
    "\<forall>k<DataChunk_size input. GetValue mem2 r2 k = Inr v"
    using Set_broadcasts(1,7) [OF set] by simp_all
  show "\<exists>mem2 r2. ExecuteExpression_chunk h Vector_Verify ex mem_b input result = Inr (mem2, r2)
               \<and> Vector.count r2 = DataChunk_size input
               \<and> (\<forall>k<DataChunk_size input. GetValue mem2 r2 k = Inr v)"
    using run b
    by (intro exI [of _ mem2] exI [of _ "r2\<lparr>owned_data := owned_data result\<rparr>"])
       (simp add: GetValue_owned_data)
qed

theorem EvaluateScalar_agrees_with_batch_witness:
  "EvaluateScalar
     (\<lambda>e ch m r. Inr (m\<lparr>data_mem := (data_mem m)(data r := (data_mem m (data r))(0 := 42))\<rparr>,
                       r\<lparr>Vector.count := 1, Vector.sel_vector := None, nullmask := (\<lambda>i. False)\<rparr>))
     (\<lambda>m v. True)
     \<lparr>data_mem = (\<lambda>a i. 0), sel_mem = (\<lambda>a k. 2 * k)\<rparr>
     \<lparr>expression_class = BOUND_CONSTANT, return_type = OTHER_TYPE 0, IsFoldable = True\<rparr> 9
   = Inr (Value 42)
   \<and> map_sum id (\<lambda>(m, r). (Vector.count r, GetValue m r 0, GetValue m r 3))
     (ExecuteExpression_chunk
        (\<lambda>e ch m r. Inr (m\<lparr>data_mem := (data_mem m)(data r := (data_mem m (data r))(0 := 42))\<rparr>,
                          r\<lparr>Vector.count := 1, Vector.sel_vector := None, nullmask := (\<lambda>i. False)\<rparr>))
        (\<lambda>m v. True)
        \<lparr>expressions = [\<lparr>expression_class = BOUND_CONSTANT, return_type = OTHER_TYPE 0,
                          IsFoldable = True\<rparr>], chunk = None\<rparr>
        \<lparr>data_mem = (\<lambda>a i. 0), sel_mem = (\<lambda>a k. 2 * k)\<rparr>
        \<lparr>row_count = 4, sel_vector = Some 5\<rparr>
        (Vector_owning (OTHER_TYPE 0) 7))
     = Inr (4, Inr (Value 42), Inr (Value 42))"
proof -
  let ?h = "\<lambda>(e::Expression) (ch::DataChunk option) m r.
              Inr (m\<lparr>data_mem := (data_mem m)(data r := (data_mem m (data r))(0 := 42))\<rparr>,
                   r\<lparr>Vector.count := 1, Vector.sel_vector := None, nullmask := (\<lambda>i. False)\<rparr>)
                :: error + (Memory \<times> Vector)"
  let ?vok = "\<lambda>(m::Memory) (v::Vector). True"
  let ?expr = "\<lparr>expression_class = BOUND_CONSTANT, return_type = OTHER_TYPE 0, IsFoldable = True\<rparr>"
  let ?ex = "\<lparr>expressions = [?expr], chunk = None\<rparr>"
  let ?mem = "\<lparr>data_mem = (\<lambda>a i. 0), sel_mem = (\<lambda>a k. 2 * k)\<rparr>"
  let ?input = "\<lparr>row_count = 4, sel_vector = Some 5\<rparr>"
  let ?res = "Vector_owning (OTHER_TYPE 0) 7"
  have f: "folds_to ?h ?vok ?expr (Value 42)"
    by (simp add: folds_to_def Execute_def Verify_def IsConstant_def GetValue_def sel_index_def)
  have e: "expressions ?ex = [?expr]" by simp
  have t: "Vector.type ?res = return_type ?expr" by (simp add: Vector_owning_def)
  note inst = EvaluateScalar_agrees_with_batch [OF f e t, of ?mem 9 ?mem ?input]
  from inst have s: "EvaluateScalar ?h ?vok ?mem ?expr 9 = Inr (Value 42)" by (rule conjunct1)
  from inst obtain mem2 r2 where
    run: "ExecuteExpression_chunk ?h ?vok ?ex ?mem ?input ?res = Inr (mem2, r2)"
    and c: "Vector.count r2 = DataChunk_size ?input"
    and all: "\<forall>k<DataChunk_size ?input. GetValue mem2 r2 k = Inr (Value 42)"
    by blast
  have "GetValue mem2 r2 0 = Inr (Value 42)" "GetValue mem2 r2 3 = Inr (Value 42)"
    using all by (simp_all add: DataChunk_size_def)
  then have "map_sum id (\<lambda>(m, r). (Vector.count r, GetValue m r 0, GetValue m r 3))
     (ExecuteExpression_chunk ?h ?vok ?ex ?mem ?input ?res)
     = Inr (4, Inr (Value 42), Inr (Value 42))"
    unfolding run using c by (simp add: DataChunk_size_def)
  with s show ?thesis by (rule conjI)
qed

end
